theory Spec2Isabelle
  imports Main "HOL-Library.Sublist" "HOL-Library.Multiset"
begin

section \<open>Go strings\<close>

text \<open>
  A Go string is a sequence of bytes; \<^typ>\<open>string\<close> (a list of 8-bit characters) models it.
  The functions of package \<open>strings\<close> that \<open>download.go\<close> calls are modelled below under
  their Go names.
\<close>

definition HasPrefix :: "string \<Rightarrow> string \<Rightarrow> bool" where
  "HasPrefix s p = (take (length p) s = p)"

text \<open>\<open>Index s sub\<close>: the position of the first occurrence of \<open>sub\<close> in \<open>s\<close>.\<close>

fun Index :: "string \<Rightarrow> string \<Rightarrow> nat option" where
  "Index [] sub = (if sub = [] then Some 0 else None)"
| "Index (c # s) sub =
     (if HasPrefix (c # s) sub then Some 0 else map_option Suc (Index s sub))"

definition Contains :: "string \<Rightarrow> string \<Rightarrow> bool" where
  "Contains s sub = (Index s sub \<noteq> None)"

text \<open>
  \<open>Replace s old new (-1)\<close> replaces every non-overlapping occurrence of \<open>old\<close>, scanning from
  the left. Both call sites pass a non-empty literal for \<open>old\<close>; the model returns \<open>s\<close> for an
  empty one.
\<close>

function Replace :: "string \<Rightarrow> string \<Rightarrow> string \<Rightarrow> string" where
  "Replace s old new =
     (if old = [] then s
      else (case Index s old of
              None \<Rightarrow> s
            | Some i \<Rightarrow> take i s @ new @ Replace (drop (i + length old) s) old new))"
  by pat_completeness auto

lemma Index_bound: "Index s sub = Some i \<Longrightarrow> i + length sub \<le> length s"
proof (induction s arbitrary: i)
  case Nil
  then show ?case by (simp split: if_splits)
next
  case (Cons c s)
  show ?case
  proof (cases "HasPrefix (c # s) sub")
    case True
    then have "length (take (length sub) (c # s)) = length sub"
      by (simp add: HasPrefix_def)
    then have "length sub \<le> length (c # s)"
      by simp
    with True Cons.prems show ?thesis by simp
  next
    case False
    with Cons.prems obtain j where "Index s sub = Some j" "i = Suc j" by auto
    with Cons.IH show ?thesis by fastforce
  qed
qed

lemma Index_drop_less:
  assumes "sub \<noteq> []" and "Index s sub = Some i"
  shows "length s - (i + length sub) < length s"
proof -
  have "i + length sub \<le> length s" using assms(2) by (rule Index_bound)
  moreover have "0 < length sub" using assms(1) by simp
  ultimately show ?thesis by arith
qed

termination Replace
  by (relation "measure (\<lambda>(s, old, new). length s)") (simp_all add: Index_drop_less)

text \<open>\<open>Split s sep\<close> for a non-empty separator: the pieces between the occurrences of \<open>sep\<close>.\<close>

function Split :: "string \<Rightarrow> string \<Rightarrow> string list" where
  "Split s sep =
     (if sep = [] then [s]
      else (case Index s sep of
              None \<Rightarrow> [s]
            | Some i \<Rightarrow> take i s # Split (drop (i + length sep) s) sep))"
  by pat_completeness auto

termination Split
  by (relation "measure (\<lambda>(s, sep). length s)") (simp_all add: Index_drop_less)

text \<open>
  \<open>Fields\<close> splits around runs of white space as \<open>unicode.IsSpace\<close> defines it. The
  white-space runes are the six of ASCII and, in UTF-8, U+0085 and U+00A0 (two bytes), U+1680,
  U+2000 to U+200A, U+2028, U+2029, U+202F, U+205F and U+3000 (three bytes). Their first bytes are
  never continuation bytes, so they are recognised on the bytes directly. \<open>space_width s\<close> is
  the width of the white-space rune at the head of \<open>s\<close>, or 0.
\<close>

definition asciiSpace :: "char \<Rightarrow> bool" where
  "asciiSpace c = (c \<in> set [CHR 0x09, CHR 0x0A, CHR 0x0B, CHR 0x0C, CHR 0x0D, CHR 0x20])"

definition space_width :: "string \<Rightarrow> nat" where
  "space_width s =
     (if s = [] then 0
      else if asciiSpace (hd s) then 1
      else if HasPrefix s [CHR 0xC2, CHR 0x85] \<or> HasPrefix s [CHR 0xC2, CHR 0xA0] then 2
      else if HasPrefix s [CHR 0xE1, CHR 0x9A, CHR 0x80] then 3
      else if HasPrefix s [CHR 0xE2, CHR 0x80] \<and>
              (case drop 2 s of
                 d # _ \<Rightarrow> (0x80 \<le> (of_char d :: nat) \<and> (of_char d :: nat) \<le> 0x8A)
                            \<or> d = CHR 0xA8 \<or> d = CHR 0xA9 \<or> d = CHR 0xAF
               | [] \<Rightarrow> False) then 3
      else if HasPrefix s [CHR 0xE2, CHR 0x81, CHR 0x9F] then 3
      else if HasPrefix s [CHR 0xE3, CHR 0x80, CHR 0x80] then 3
      else 0)"

function fields_from :: "string \<Rightarrow> string \<Rightarrow> string list" where
  "fields_from cur [] = (if cur = [] then [] else [cur])"
| "fields_from cur (c # s) =
     (if space_width (c # s) = 0 then fields_from (cur @ [c]) s
      else (if cur = [] then [] else [cur]) @ fields_from [] (drop (space_width (c # s) - 1) s))"
  by pat_completeness auto

termination fields_from
  by (relation "measure (\<lambda>(cur, s). length s)") auto

definition Fields :: "string \<Rightarrow> string list" where
  "Fields s = fields_from [] s"

section \<open>Reading the reference listing\<close>

text \<open>
  \<open>bufio.Scanner\<close> with its default split function \<open>ScanLines\<close>: a token ends at a newline,
  one trailing carriage return is dropped, and a last line without a newline is a token too. The
  scanner's buffer grows to \<open>MaxScanTokenSize\<close> (64 KiB) at most: when no newline stands among
  the next 65536 bytes and the input is that long, \<open>Scan\<close> returns false with \<open>ErrTooLong\<close>;
  \<open>getAllGoVersion\<close> never asks for the error, so its loop just ends there.
\<close>

definition MaxScanTokenSize :: nat where
  "MaxScanTokenSize = 64 * 1024"

definition dropCR :: "string \<Rightarrow> string" where
  "dropCR data = (if data \<noteq> [] \<and> last data = CHR 0x0D then butlast data else data)"

function scan_lines :: "string \<Rightarrow> string list" where
  "scan_lines data =
     (if data = [] then []
      else (let line = takeWhile (\<lambda>c. c \<noteq> CHR 0x0A) data;
                rest = dropWhile (\<lambda>c. c \<noteq> CHR 0x0A) data
            in if MaxScanTokenSize \<le> length line then []
               else if rest = [] then [dropCR line]
               else dropCR line # scan_lines (tl rest)))"
  by pat_completeness auto

termination scan_lines
proof (relation "measure length")
  show "wf (measure length)" by simp
next
  fix data :: string and line rest
  assume "data \<noteq> []" and r: "rest = dropWhile (\<lambda>c. c \<noteq> CHR 0x0A) data" and "rest \<noteq> []"
  have "length rest \<le> length data" unfolding r by (rule length_dropWhile_le)
  moreover have "length (tl rest) < length rest" using \<open>rest \<noteq> []\<close> by (cases rest) simp_all
  ultimately show "(tl rest, data) \<in> measure length" by simp
qed

text \<open>
  The body of the scanning loop (lines 256 to 284): a line is retained when it contains the tag
  marker and has exactly two fields; its VersionTag is the second field with every occurrence of
  the marker removed.
\<close>

definition tag_of_line :: "string \<Rightarrow> string option" where
  "tag_of_line line =
     (if Contains line ''refs/tags/go''
      then (let ls = Fields line
            in if length ls = 2 then Some (Replace (ls ! 1) ''refs/tags/go'' []) else None)
      else None)"

text \<open>The \<open>switch len(sections)\<close> of lines 262 to 280.\<close>

definition normalizeVersion :: "string \<Rightarrow> string" where
  "normalizeVersion version =
     (let sections = Split version ''.'' in
      if length sections = 1 then version @ ''.0.0''
      else if length sections = 2 then
        (if Contains version ''beta'' then Replace version ''beta'' ''.0-beta''
         else if Contains version ''rc'' then Replace version ''rc'' ''.0-rc''
         else version @ ''.0'')
      else if length sections = 3 then
        (if Contains version ''rc'' then Replace version ''rc'' ''-rc''
         else if Contains version ''beta'' then Replace version ''beta'' ''-beta''
         else version)
      else version)"

text \<open>
  The loop's state is the map \<open>tmp\<close> from normalized version to VersionTag and the slice
  \<open>sortVersions\<close> of normalized versions, in the order of the lines.
\<close>

type_synonym scan_state = "(string \<rightharpoonup> string) \<times> string list"

definition scan_step :: "scan_state \<Rightarrow> string \<Rightarrow> scan_state" where
  "scan_step st line =
     (case tag_of_line line of
        None \<Rightarrow> st
      | Some oldVersion \<Rightarrow>
          (let version = normalizeVersion oldVersion
           in ((fst st)(version \<mapsto> oldVersion), snd st @ [version])))"

definition scan_listing :: "string \<Rightarrow> scan_state" where
  "scan_listing b = foldl scan_step (Map.empty, []) (scan_lines b)"

section \<open>The semantic-version comparator\<close>

text \<open>
  \<open>github.com/blang/semver\<close> is a dependency of the repository; \<open>download.go\<close> calls
  \<open>semver.Make\<close> and \<open>Version.GE\<close>. The model follows the library's \<open>Parse\<close>,
  \<open>NewPRVersion\<close> and \<open>Compare\<close>. A \<open>PRVersion\<close> is either numeric or alphanumeric
  (the library's \<open>IsNum\<close> flag); the numbers are \<open>uint64\<close>, modelled as integers that
  \<open>ParseUint\<close> keeps below \<open>2 ^ 64\<close>.
\<close>

datatype PRVersion = PRNum int | PRStr string

record Version =
  Major :: int
  Minor :: int
  Patch :: int
  Pre :: "PRVersion list"
  Build :: "string list"

definition numbers :: string where
  "numbers = ''0123456789''"

definition alphanum :: string where
  "alphanum = ''abcdefghijklmnopqrstuvwxyzABCDEFGHIJKLMNOPQRSTUVWXYZ-'' @ numbers"

definition containsOnly :: "string \<Rightarrow> string \<Rightarrow> bool" where
  "containsOnly s cs = list_all (\<lambda>c. c \<in> set cs) s"

definition hasLeadingZeroes :: "string \<Rightarrow> bool" where
  "hasLeadingZeroes s = (1 < length s \<and> hd s = CHR ''0'')"

definition digits_value :: "string \<Rightarrow> int" where
  "digits_value s = foldl (\<lambda>n c. 10 * n + (of_char c - 48)) 0 s"

text \<open>\<open>strconv.ParseUint s 10 64\<close>: a non-empty string of digits whose value fits 64 bits.\<close>

definition ParseUint :: "string \<Rightarrow> int option" where
  "ParseUint s =
     (if s = [] \<or> \<not> containsOnly s numbers then None
      else if digits_value s < 2 ^ 64 then Some (digits_value s) else None)"

text \<open>The three checks \<open>Parse\<close> makes on the major, the minor and the patch number.\<close>

definition parse_number :: "string \<Rightarrow> int option" where
  "parse_number s =
     (if \<not> containsOnly s numbers then None
      else if hasLeadingZeroes s then None
      else ParseUint s)"

definition NewPRVersion :: "string \<Rightarrow> PRVersion option" where
  "NewPRVersion s =
     (if s = [] then None
      else if containsOnly s numbers then
        (if hasLeadingZeroes s then None else map_option PRNum (ParseUint s))
      else if containsOnly s alphanum then Some (PRStr s)
      else None)"

text \<open>\<open>strings.SplitN s "." 3\<close>: at most three pieces, the last one unsplit.\<close>

definition SplitN3 :: "string \<Rightarrow> string list" where
  "SplitN3 s =
     (case Index s ''.'' of
        None \<Rightarrow> [s]
      | Some i \<Rightarrow>
          (let r = drop (i + 1) s in
           case Index r ''.'' of
             None \<Rightarrow> [take i s, r]
           | Some j \<Rightarrow> [take i s, take j r, drop (j + 1) r]))"

definition Parse :: "string \<Rightarrow> Version option" where
  "Parse s =
     (if s = [] then None
      else (case SplitN3 s of
        [p0, p1, p2] \<Rightarrow>
          (case parse_number p0 of None \<Rightarrow> None | Some major \<Rightarrow>
          (case parse_number p1 of None \<Rightarrow> None | Some minor \<Rightarrow>
            (let build = (case Index p2 ''+'' of
                            Some bi \<Rightarrow> Split (drop (bi + 1) p2) ''.'' | None \<Rightarrow> []);
                 patchStr1 = (case Index p2 ''+'' of Some bi \<Rightarrow> take bi p2 | None \<Rightarrow> p2);
                 prerelease = (case Index patchStr1 ''-'' of
                                 Some pi \<Rightarrow> Split (drop (pi + 1) patchStr1) ''.'' | None \<Rightarrow> []);
                 patchStr = (case Index patchStr1 ''-'' of
                               Some pi \<Rightarrow> take pi patchStr1 | None \<Rightarrow> patchStr1)
             in (case parse_number patchStr of None \<Rightarrow> None | Some patch \<Rightarrow>
                (case those (map NewPRVersion prerelease) of None \<Rightarrow> None | Some pre \<Rightarrow>
                   if list_all (\<lambda>str. str \<noteq> [] \<and> containsOnly str alphanum) build
                   then Some \<lparr>Major = major, Minor = minor, Patch = patch, Pre = pre,
                               Build = build\<rparr>
                   else None)))))
      | _ \<Rightarrow> None))"

text \<open>
  \<open>semver.Make\<close> returns \<open>Parse\<close>'s pair of a version and an error; with an error the
  version is the zero value \<open>Version{}\<close>. The second component says that the error is nil.
\<close>

definition zero_Version :: Version where
  "zero_Version = \<lparr>Major = 0, Minor = 0, Patch = 0, Pre = [], Build = []\<rparr>"

definition Make :: "string \<Rightarrow> Version \<times> bool" where
  "Make s = (case Parse s of Some v \<Rightarrow> (v, True) | None \<Rightarrow> (zero_Version, False))"

text \<open>Go compares strings byte by byte.\<close>

fun str_compare :: "string \<Rightarrow> string \<Rightarrow> int" where
  "str_compare [] [] = 0"
| "str_compare [] (y # ys) = - 1"
| "str_compare (x # xs) [] = 1"
| "str_compare (x # xs) (y # ys) =
     (if (of_char x :: nat) < of_char y then - 1
      else if (of_char y :: nat) < of_char x then 1
      else str_compare xs ys)"

fun PR_Compare :: "PRVersion \<Rightarrow> PRVersion \<Rightarrow> int" where
  "PR_Compare (PRNum a) (PRStr b) = - 1"
| "PR_Compare (PRStr a) (PRNum b) = 1"
| "PR_Compare (PRNum a) (PRNum b) = (if a = b then 0 else if a > b then 1 else - 1)"
| "PR_Compare (PRStr a) (PRStr b) = str_compare a b"

text \<open>The loop of \<open>Compare\<close> over the two prerelease lists, and what follows it.\<close>

fun pre_Compare :: "PRVersion list \<Rightarrow> PRVersion list \<Rightarrow> int" where
  "pre_Compare [] [] = 0"
| "pre_Compare [] (y # ys) = - 1"
| "pre_Compare (x # xs) [] = 1"
| "pre_Compare (x # xs) (y # ys) =
     (if PR_Compare x y = 0 then pre_Compare xs ys
      else if PR_Compare x y = 1 then 1 else - 1)"

definition Compare :: "Version \<Rightarrow> Version \<Rightarrow> int" where
  "Compare v o' =
     (if Major v \<noteq> Major o' then (if Major v > Major o' then 1 else - 1)
      else if Minor v \<noteq> Minor o' then (if Minor v > Minor o' then 1 else - 1)
      else if Patch v \<noteq> Patch o' then (if Patch v > Patch o' then 1 else - 1)
      else if Pre v = [] \<and> Pre o' = [] then 0
      else if Pre v = [] \<and> Pre o' \<noteq> [] then 1
      else if Pre v \<noteq> [] \<and> Pre o' = [] then - 1
      else pre_Compare (Pre v) (Pre o'))"

definition GE :: "Version \<Rightarrow> Version \<Rightarrow> bool" where
  "GE v o' = (Compare v o' \<ge> 0)"

text \<open>The comparison function handed to \<open>sort.SliceStable\<close> (lines 288 to 292).\<close>

definition version_less :: "string \<Rightarrow> string \<Rightarrow> bool" where
  "version_less vi vj = GE (fst (Make vi)) (fst (Make vj))"

section \<open>The stable sort of the Go library\<close>

text \<open>
  \<open>sort.SliceStable x less\<close> runs \<open>stable_func\<close> of package \<open>sort\<close>: insertion sort on
  consecutive blocks of 20 elements, then passes of \<open>symMerge_func\<close> over pairs of neighbouring
  blocks, the block size doubling after each pass. The library works in place on \<open>data[a:b]\<close>
  through \<open>Less\<close> and \<open>Swap\<close>; the model works on the slice \<open>data[a:b]\<close> as a list, with
  indices counted from \<open>a\<close> (the index arithmetic of the library, halving included, is invariant
  under this shift). What the result is for a \<open>less\<close> function that is not a strict ordering is not
  documented by the library, so the model keeps the comparisons the library makes and their order.
\<close>

text \<open>
  \<open>insertionSort_func\<close>: the element at \<open>i\<close> is swapped towards the front while it is
  less than its left neighbour. \<open>insert_back lessf x ys\<close> does this for the element \<open>x\<close>,
  the sorted part before it being given back to front.
\<close>

fun insert_back :: "('a \<Rightarrow> 'a \<Rightarrow> bool) \<Rightarrow> 'a \<Rightarrow> 'a list \<Rightarrow> 'a list" where
  "insert_back lessf x [] = [x]"
| "insert_back lessf x (y # ys) =
     (if lessf x y then y # insert_back lessf x ys else x # y # ys)"

definition insertionSort :: "('a \<Rightarrow> 'a \<Rightarrow> bool) \<Rightarrow> 'a list \<Rightarrow> 'a list" where
  "insertionSort lessf xs = rev (foldl (\<lambda>acc x. insert_back lessf x acc) [] xs)"

text \<open>
  The three binary searches of \<open>symMerge_func\<close> have one shape: they narrow \<open>[i, j)\<close> with
  \<open>h = (i + j) / 2\<close>, going left when the test holds at \<open>h\<close> and right of \<open>h\<close> otherwise.
\<close>

function bsearch :: "(nat \<Rightarrow> bool) \<Rightarrow> nat \<Rightarrow> nat \<Rightarrow> nat" where
  "bsearch P i j =
     (if i < j then (if P ((i + j) div 2) then bsearch P i ((i + j) div 2)
                     else bsearch P ((i + j) div 2 + 1) j)
      else i)"
  by pat_completeness auto

termination bsearch
  by (relation "measure (\<lambda>(P, i, j). j - i)") auto

text \<open>\<open>rotate_func data a m e\<close> exchanges the neighbouring blocks \<open>data[a:m]\<close> and \<open>data[m:e]\<close>.\<close>

definition rotate_blocks :: "'a list \<Rightarrow> nat \<Rightarrow> nat \<Rightarrow> nat \<Rightarrow> 'a list" where
  "rotate_blocks xs a m e = take a xs @ drop m (take e xs) @ drop a (take m xs) @ drop e xs"

lemma length_rotate_blocks:
  "a \<le> m \<Longrightarrow> m \<le> e \<Longrightarrow> length (rotate_blocks xs a m e) = length xs"
  by (simp add: rotate_blocks_def)

text \<open>
  \<open>symMerge lessf xs m\<close> merges the blocks \<open>xs[0:m]\<close> and \<open>xs[m:]\<close> of the slice \<open>xs\<close>
  (\<open>symMerge_func data a m b\<close> with \<open>xs = data[a:b]\<close>). With one element on the left, it is moved
  right to the place before the index the search finds; with one element on the right, it is moved
  left to the index the search finds; otherwise the blocks are cut, the inner parts exchanged, and
  the two halves merged.
\<close>

function symMerge :: "('a \<Rightarrow> 'a \<Rightarrow> bool) \<Rightarrow> 'a list \<Rightarrow> nat \<Rightarrow> 'a list" where
  "symMerge lessf xs m =
     (if m = 1 then
        (let i = bsearch (\<lambda>h. \<not> lessf (xs ! h) (xs ! 0)) m (length xs)
         in take (i - 1) (tl xs) @ [xs ! 0] @ drop i xs)
      else if length xs - m = 1 then
        (let i = bsearch (\<lambda>h. lessf (xs ! m) (xs ! h)) 0 m
         in take i xs @ [xs ! m] @ drop i (take m xs))
      else
        (let mid = length xs div 2;
             n = mid + m;
             start = bsearch (\<lambda>c. lessf (xs ! (n - 1 - c)) (xs ! c))
                       (if m > mid then n - length xs else 0) (if m > mid then mid else m);
             e = n - start;
             ys = (if start < m \<and> m < e then rotate_blocks xs start m e else xs)
         in (if 0 < start \<and> start < mid then symMerge lessf (take mid ys) start
             else take mid ys) @
            (if mid < e \<and> e < length xs then symMerge lessf (drop mid ys) (e - mid)
             else drop mid ys)))"
  by pat_completeness auto

termination symMerge
proof (relation "measure (\<lambda>(lessf, xs, m). length xs)")
  show "wf (measure (\<lambda>(lessf, xs, m). length xs))" by simp
next
  fix lessf :: "'a \<Rightarrow> 'a \<Rightarrow> bool" and xs :: "'a list" and m mid n start e :: nat and ys :: "'a list"
  assume "mid = length xs div 2" and "0 < start \<and> start < mid"
  then have "mid < length xs" by (cases "length xs") auto
  then show "((lessf, take mid ys, start), (lessf, xs, m)) \<in> measure (\<lambda>(lessf, xs, m). length xs)"
    by simp
next
  fix lessf :: "'a \<Rightarrow> 'a \<Rightarrow> bool" and xs :: "'a list" and m mid n start e :: nat and ys :: "'a list"
  assume mid: "mid = length xs div 2"
    and ys: "ys = (if start < m \<and> m < e then rotate_blocks xs start m e else xs)"
    and cond: "mid < e \<and> e < length xs"
  have "length ys = length xs"
    unfolding ys by (simp add: length_rotate_blocks)
  moreover have "0 < mid" using mid cond by (cases "length xs div 2") auto
  moreover have "mid < length xs" using cond by simp
  ultimately show "((lessf, drop mid ys, e - mid), (lessf, xs, m))
      \<in> measure (\<lambda>(lessf, xs, m). length xs)"
    by simp
qed

text \<open>The first loop of \<open>stable_func\<close> and the call after it.\<close>

function sort_blocks :: "('a \<Rightarrow> 'a \<Rightarrow> bool) \<Rightarrow> nat \<Rightarrow> 'a list \<Rightarrow> 'a list" where
  "sort_blocks lessf blockSize xs =
     (if 0 < blockSize \<and> blockSize \<le> length xs
      then insertionSort lessf (take blockSize xs) @ sort_blocks lessf blockSize (drop blockSize xs)
      else insertionSort lessf xs)"
  by pat_completeness auto

termination sort_blocks
  by (relation "measure (\<lambda>(lessf, blockSize, xs). length xs)") auto

text \<open>One pass of the second loop: the inner loop over pairs of blocks and the call after it.\<close>

function merge_pass :: "('a \<Rightarrow> 'a \<Rightarrow> bool) \<Rightarrow> nat \<Rightarrow> 'a list \<Rightarrow> 'a list" where
  "merge_pass lessf blockSize xs =
     (if 0 < blockSize \<and> 2 * blockSize \<le> length xs
      then symMerge lessf (take (2 * blockSize) xs) blockSize
             @ merge_pass lessf blockSize (drop (2 * blockSize) xs)
      else if blockSize < length xs then symMerge lessf xs blockSize
      else xs)"
  by pat_completeness auto

termination merge_pass
  by (relation "measure (\<lambda>(lessf, blockSize, xs). length xs)") auto

function merge_loop :: "('a \<Rightarrow> 'a \<Rightarrow> bool) \<Rightarrow> nat \<Rightarrow> nat \<Rightarrow> 'a list \<Rightarrow> 'a list" where
  "merge_loop lessf n blockSize xs =
     (if 0 < blockSize \<and> blockSize < n
      then merge_loop lessf n (2 * blockSize) (merge_pass lessf blockSize xs)
      else xs)"
  by pat_completeness auto

termination merge_loop
  by (relation "measure (\<lambda>(lessf, n, blockSize, xs). n - blockSize)") auto

definition stable :: "('a \<Rightarrow> 'a \<Rightarrow> bool) \<Rightarrow> 'a list \<Rightarrow> 'a list" where
  "stable lessf xs = merge_loop lessf (length xs) 20 (sort_blocks lessf 20 xs)"

definition SliceStable :: "'a list \<Rightarrow> ('a \<Rightarrow> 'a \<Rightarrow> bool) \<Rightarrow> 'a list" where
  "SliceStable x lessf = stable lessf x"

section \<open>The version listing\<close>

text \<open>
  Lines 251 to 299 of \<open>getAllGoVersion\<close>, from the bytes \<open>b\<close> of the reference listing to the
  returned slice. Reading a key that a Go map does not hold gives the empty string.
\<close>

definition versions_of :: "string \<Rightarrow> string list" where
  "versions_of b =
     (let tmp = fst (scan_listing b);
          sortVersions = SliceStable (snd (scan_listing b)) version_less
      in map (\<lambda>value. case tmp value of Some v \<Rightarrow> v | None \<Rightarrow> []) sortVersions)"

text \<open>
  The equations of the functions defined by general recursion rewrite their own right-hand
  sides; they are used where a proof names them.
\<close>

declare Replace.simps [simp del] Split.simps [simp del] fields_from.simps [simp del]
  scan_lines.simps [simp del] bsearch.simps [simp del] symMerge.simps [simp del]
  sort_blocks.simps [simp del] merge_pass.simps [simp del] merge_loop.simps [simp del]

section \<open>Paths\<close>

text \<open>
  \<open>filepath.Clean\<close> and \<open>filepath.Join\<close> for slash-separated paths (the Unix build of
  package \<open>path/filepath\<close>). \<open>elems\<close> drops the empty elements and the \<open>.\<close> elements;
  \<open>clean_elems\<close> removes each inner \<open>..\<close> with the element before it, drops a \<open>..\<close> at
  the root and keeps a leading \<open>..\<close> of a relative path. Its second argument is the cleaned
  part, last element first.
\<close>

definition rooted :: "string \<Rightarrow> bool" where
  "rooted p = HasPrefix p ''/''"

definition elems :: "string \<Rightarrow> string list" where
  "elems p = filter (\<lambda>e. e \<noteq> [] \<and> e \<noteq> ''.'') (Split p ''/'')"

fun clean_elems :: "bool \<Rightarrow> string list \<Rightarrow> string list \<Rightarrow> string list" where
  "clean_elems r out [] = rev out"
| "clean_elems r out (e # es) =
     (if e = ''..''
      then (case out of
              [] \<Rightarrow> if r then clean_elems r [] es else clean_elems r [''..''] es
            | t # ts \<Rightarrow> if t = ''..'' then clean_elems r (e # out) es else clean_elems r ts es)
      else clean_elems r (e # out) es)"

fun join_elems :: "string list \<Rightarrow> string" where
  "join_elems [] = []"
| "join_elems [e] = e"
| "join_elems (e # es) = e @ ''/'' @ join_elems es"

definition Clean :: "string \<Rightarrow> string" where
  "Clean p =
     (let es = clean_elems (rooted p) [] (elems p)
      in if rooted p then ''/'' @ join_elems es
         else if es = [] then ''.''
         else join_elems es)"

definition Join :: "string list \<Rightarrow> string" where
  "Join elem =
     (if filter (\<lambda>e. e \<noteq> []) elem = [] then []
      else Clean (join_elems (filter (\<lambda>e. e \<noteq> []) elem)))"

section \<open>The world outside the program\<close>

text \<open>
  Errors are values. The first group are the errors the operating system and the libraries
  return; the second group are the errors \<open>download.go\<close> builds with \<open>fmt.Errorf\<close>, keeping
  what the message is formatted from. \<open>Panic\<close> is a run-time panic.
\<close>

datatype error =
    ErrInvalidURL
  | ErrNetwork string
  | ErrNotExist
  | ErrNotDir
  | ErrIsDir
  | ErrNotEmpty
  | ErrBusy
  | ErrInvalid
  | ErrNoSpace
  | ErrShortWrite
  | ErrSyntax
  | ErrRange
  | ErrFormat string
  | Panic
  | DownloadFailed error
  | DownloadStatus int string
  | SidecarFailed string error
  | SidecarStatus string int
  | ChecksumMismatch string string
  | UnpackFailed string error
  | VersionConnect error
  | VersionStatus int
  | CacheWriteError error
  | CacheReadError error

text \<open>
  A reader delivers its bytes in the pieces that successive calls of \<open>Read\<close> return, and then
  ends with \<open>io.EOF\<close> (\<open>None\<close>) or with an error.
\<close>

type_synonym reader = "string list \<times> error option"

record response =
  StatusCode :: int
  ContentLength :: string
  Body :: reader

text \<open>
  An archive entry as both decoders present it: the name, what its \<open>FileInfo\<close> answers, and
  the reader of its content. \<open>OpenErr\<close> is the error of \<open>f.Open\<close> for a zip entry. A tar
  stream ends with \<open>io.EOF\<close> or with an error of \<open>Next\<close>.
\<close>

record entry =
  Name :: string
  IsDir :: bool
  Mode :: nat
  Data :: reader
  OpenErr :: "error option"

text \<open>
  What the program is run with and cannot change: the three package variables, \<open>runtime.GOOS\<close>,
  the servers (a response or a transport error for each URL), whether \<open>http.NewRequest\<close>
  accepts a URL, SHA-256, and the decoders of \<open>compress/gzip\<close> with \<open>archive/tar\<close> and of
  \<open>archive/zip\<close> as functions of the bytes of the file.
\<close>

record environment =
  DefaultDownloadURLPrefix :: string
  DefaultProxyURL :: string
  DefaultSourceURL :: string
  GOOS :: string
  remote :: "string \<Rightarrow> error + response"
  url_ok :: "string \<Rightarrow> bool"
  sha256 :: "string \<Rightarrow> string"
  gunzip_tar :: "string \<Rightarrow> error + (entry list \<times> error option)"
  unzip :: "string \<Rightarrow> error + entry list"

text \<open>
  The file system maps an absolute path, the list of its elements, to a node; the root is
  \<open>[]\<close>. Every node has a modification time. There are no symbolic links and no permissions.
  \<open>space\<close> is the number of bytes the file system still accepts: a write beyond it is cut
  short and fails. \<open>now\<close> is the clock, in nanoseconds. \<open>log\<close> records, in order, the
  requests sent and the calls made on the destination.

  All paths but one that the program hands to the operating system are results of
  \<open>filepath.Join\<close>, hence clean: without \<open>.\<close> elements and with \<open>..\<close> elements at the
  front of a relative path only. For these, \<open>resolve\<close> gives the node that the path names. The
  one exception is the destination that \<open>os.RemoveAll\<close> is handed as the caller wrote it; for it,
  \<open>lookup\<close> walks the path as the operating system does.
\<close>

datatype node = Dir int | File string int

datatype event = HttpGet string | RemoveAllCall string | UnpackCall string string

record world =
  fs :: "string list \<rightharpoonup> node"
  cwd :: "string list"
  now :: int
  space :: nat
  environ :: "string \<rightharpoonup> string"
  log :: "event list"

definition resolve :: "world \<Rightarrow> string \<Rightarrow> string list" where
  "resolve w p =
     (if rooted p then clean_elems True [] (elems p)
      else clean_elems True [] (cwd w @ elems p))"

text \<open>
  The walk of the operating system along a path: \<open>comps\<close> are the elements between the
  slashes. An element is looked up in a directory only, so every element before the last must
  name an existing directory, also one that a later \<open>..\<close> leaves again; \<open>..\<close> at the root
  stays at the root. The node of the last element need not exist.
\<close>

definition comps :: "string \<Rightarrow> string list" where
  "comps p = filter (\<lambda>e. e \<noteq> []) (Split p ''/'')"

definition dir_at :: "(string list \<rightharpoonup> node) \<Rightarrow> string list \<Rightarrow> bool" where
  "dir_at m d = (d = [] \<or> (case m d of Some (Dir _) \<Rightarrow> True | _ \<Rightarrow> False))"

fun walk ::
  "(string list \<rightharpoonup> node) \<Rightarrow> string list \<Rightarrow> string list \<Rightarrow> error + string list" where
  "walk m d [] = Inr d"
| "walk m d (e # es) =
     (if dir_at m d
      then walk m (if e = ''.'' then d else if e = ''..'' then butlast d else d @ [e]) es
      else Inl (case m d of Some (File _ _) \<Rightarrow> ErrNotDir | _ \<Rightarrow> ErrNotExist))"

definition lookup :: "world \<Rightarrow> string \<Rightarrow> error + string list" where
  "lookup w p = walk (fs w) (if rooted p then [] else cwd w) (comps p)"

text \<open>
  The error for a path without a node: \<open>ENOTDIR\<close> when a file stands on the way to it,
  \<open>ENOENT\<close> otherwise.
\<close>

definition missing_error :: "(string list \<rightharpoonup> node) \<Rightarrow> string list \<Rightarrow> error" where
  "missing_error m p =
     (if \<exists>d \<in> set (map (\<lambda>n. take n p) [0..<length p]).
           (case m d of Some (File _ _) \<Rightarrow> True | _ \<Rightarrow> False)
      then ErrNotDir else ErrNotExist)"

definition Setenv :: "world \<Rightarrow> string \<Rightarrow> string \<Rightarrow> world" where
  "Setenv w k v = w\<lparr>environ := (environ w)(k \<mapsto> v)\<rparr>"

text \<open>Adding or removing an entry of a directory sets the directory's modification time.\<close>

definition touch :: "int \<Rightarrow> string list \<Rightarrow> (string list \<rightharpoonup> node) \<Rightarrow> (string list \<rightharpoonup> node)" where
  "touch t d m = (case m d of Some (Dir _) \<Rightarrow> m(d \<mapsto> Dir t) | _ \<Rightarrow> m)"

text \<open>
  \<open>os.MkdirAll\<close>: every missing directory on the way to the path is created; a file on the
  way is an error.
\<close>

fun mkdir_all ::
  "int \<Rightarrow> (string list \<rightharpoonup> node) \<Rightarrow> string list \<Rightarrow> string list
    \<Rightarrow> (string list \<rightharpoonup> node) \<times> error option" where
  "mkdir_all t m d [] = (m, None)"
| "mkdir_all t m d (e # es) =
     (case m (d @ [e]) of
        Some (Dir _) \<Rightarrow> mkdir_all t m (d @ [e]) es
      | Some (File _ _) \<Rightarrow> (m, Some ErrNotDir)
      | None \<Rightarrow> mkdir_all t (touch t d (m(d @ [e] \<mapsto> Dir t))) (d @ [e]) es)"

definition MkdirAll :: "world \<Rightarrow> string \<Rightarrow> world \<times> error option" where
  "MkdirAll w path =
     (if path = [] then (w, Some ErrNotExist)
      else (let r = mkdir_all (now w) (fs w) [] (resolve w path)
            in (w\<lparr>fs := fst r\<rparr>, snd r)))"

text \<open>
  \<open>os.Remove\<close> removes a file or an empty directory: \<open>unlink\<close>, then \<open>rmdir\<close>, and the
  error of \<open>rmdir\<close> unless that is \<open>ENOTDIR\<close>. \<open>rmdir\<close> refuses the root (\<open>EBUSY\<close>), a
  path that ends in \<open>.\<close> (\<open>EINVAL\<close>) and one that ends in \<open>..\<close> (\<open>ENOTEMPTY\<close>).
\<close>

definition has_children :: "(string list \<rightharpoonup> node) \<Rightarrow> string list \<Rightarrow> bool" where
  "has_children m d = (\<exists>k \<in> dom m. butlast k = d \<and> k \<noteq> [])"

definition Remove :: "world \<Rightarrow> string \<Rightarrow> world \<times> error option" where
  "Remove w name =
     (let p = resolve w name in
      if name = [] then (w, Some ErrNotExist)
      else if comps name = [] then (w, Some ErrBusy)
      else if last (comps name) = ''.'' then (w, Some ErrInvalid)
      else if last (comps name) = ''..'' then (w, Some ErrNotEmpty)
      else (case fs w p of
              None \<Rightarrow> (w, Some (missing_error (fs w) p))
            | Some (File _ _) \<Rightarrow>
                (w\<lparr>fs := touch (now w) (butlast p) ((fs w)(p := None))\<rparr>, None)
            | Some (Dir _) \<Rightarrow>
                if p = [] \<or> has_children (fs w) p then (w, Some ErrNotEmpty)
                else (w\<lparr>fs := touch (now w) (butlast p) ((fs w)(p := None))\<rparr>, None)))"

text \<open>
  \<open>os.RemoveAll\<close> (the implementation with \<open>unlinkat\<close>, on Linux). It does nothing for the
  empty path and refuses a path that ends in \<open>.\<close>. It then tries \<open>Remove\<close> and is done when
  that succeeds or answers "not exist", which it does when an element on the way is missing.
  Otherwise it opens the parent directory and removes the last element from there, a directory
  after everything in it. When a file stands on the way, nothing is removed and the error is
  \<open>ENOTDIR\<close>. A path that ends in \<open>..\<close> or in \<open>./\<close>, or is the root, names a directory that
  \<open>rmdir\<close> refuses: everything below it is removed, the directory stays, and the error of
  \<open>rmdir\<close> is returned.
\<close>

definition endsWithDot :: "string \<Rightarrow> bool" where
  "endsWithDot path = (path = ''.'' \<or> (length path \<ge> 2 \<and> drop (length path - 2) path = ''/.''))"

definition remove_tree ::
  "(string list \<rightharpoonup> node) \<Rightarrow> string list \<Rightarrow> (string list \<rightharpoonup> node)" where
  "remove_tree m p = (\<lambda>k. if take (length p) k = p then None else m k)"

definition remove_below ::
  "(string list \<rightharpoonup> node) \<Rightarrow> string list \<Rightarrow> (string list \<rightharpoonup> node)" where
  "remove_below m p = (\<lambda>k. if k \<noteq> p \<and> take (length p) k = p then None else m k)"

definition empty_dir :: "world \<Rightarrow> string list \<Rightarrow> error \<Rightarrow> world \<times> error option" where
  "empty_dir w p err =
     (if has_children (fs w) p
      then (w\<lparr>fs := touch (now w) p (remove_below (fs w) p)\<rparr>, Some err)
      else (w, Some err))"

definition RemoveAll :: "world \<Rightarrow> string \<Rightarrow> world \<times> error option" where
  "RemoveAll w path =
     (if path = [] then (w, None)
      else if endsWithDot path then (w, Some ErrInvalid)
      else (case lookup w path of
              Inl err \<Rightarrow> (w, if err = ErrNotExist then None else Some err)
            | Inr p \<Rightarrow>
                if comps path = [] then empty_dir w p ErrBusy
                else if last (comps path) = ''.'' then empty_dir w p ErrInvalid
                else if last (comps path) = ''..'' then empty_dir w p ErrNotEmpty
                else (case fs w p of
                        None \<Rightarrow> (w, None)
                      | Some _ \<Rightarrow>
                          (w\<lparr>fs := touch (now w) (butlast p) (remove_tree (fs w) p)\<rparr>, None))))"

text \<open>
  \<open>os.OpenFile name (O_CREATE|O_TRUNC|O_WRONLY) perm\<close>: the directory of the file must
  exist (\<open>ENOENT\<close> when it does not, \<open>ENOTDIR\<close> when a file stands on the way); the file is
  created, or emptied when it exists.
\<close>

definition OpenFile :: "world \<Rightarrow> string \<Rightarrow> world \<times> error option" where
  "OpenFile w name =
     (let p = resolve w name in
      if name = [] \<or> p = [] then (w, Some (if name = [] then ErrNotExist else ErrIsDir))
      else (case fs w (butlast p) of
              None \<Rightarrow> (w, Some (missing_error (fs w) (butlast p)))
            | Some (File _ _) \<Rightarrow> (w, Some ErrNotDir)
            | Some (Dir _) \<Rightarrow>
                (case fs w p of
                   Some (Dir _) \<Rightarrow> (w, Some ErrIsDir)
                 | Some (File _ _) \<Rightarrow> (w\<lparr>fs := (fs w)(p \<mapsto> File [] (now w))\<rparr>, None)
                 | None \<Rightarrow>
                     (w\<lparr>fs := touch (now w) (butlast p) ((fs w)(p \<mapsto> File [] (now w)))\<rparr>,
                      None))))"

text \<open>
  \<open>File.Write\<close> on a file opened as above appends; it returns the number of bytes written
  and an error when that is less than it was given.
\<close>

definition file_Write :: "world \<Rightarrow> string list \<Rightarrow> string \<Rightarrow> world \<times> nat \<times> error option" where
  "file_Write w p b =
     (case fs w p of
        Some (File c _) \<Rightarrow>
          (if length b \<le> space w
           then (w\<lparr>fs := (fs w)(p \<mapsto> File (c @ b) (now w)), space := space w - length b\<rparr>,
                 length b, None)
           else (w\<lparr>fs := (fs w)(p \<mapsto> File (c @ take (space w) b) (now w)), space := 0\<rparr>,
                 space w, Some ErrNoSpace))
      | _ \<Rightarrow> (w, 0, Some ErrInvalid))"

datatype fileinfo = FileInfo (isDir: bool) (ModTime: int)

definition Stat :: "world \<Rightarrow> string \<Rightarrow> error + fileinfo" where
  "Stat w name =
     (let p = resolve w name in
      if name = [] then Inl ErrNotExist
      else (case fs w p of
              Some (Dir t) \<Rightarrow> Inr (FileInfo True t)
            | Some (File _ t) \<Rightarrow> Inr (FileInfo False t)
            | None \<Rightarrow>
                (if \<exists>d \<in> set (map (\<lambda>n. take n p) [0..<length p]).
                      (case fs w d of Some (File _ _) \<Rightarrow> True | _ \<Rightarrow> False)
                 then Inl ErrNotDir else Inl ErrNotExist)))"

definition IsNotExist :: "error \<Rightarrow> bool" where
  "IsNotExist e = (e = ErrNotExist)"

definition ReadFile :: "world \<Rightarrow> string \<Rightarrow> error + string" where
  "ReadFile w name =
     (if name = [] then Inl ErrNotExist
      else (case fs w (resolve w name) of
              Some (File c _) \<Rightarrow> Inr c
            | Some (Dir _) \<Rightarrow> Inl ErrIsDir
            | None \<Rightarrow> Inl (missing_error (fs w) (resolve w name))))"

text \<open>\<open>ioutil.WriteFile\<close> opens the file as above, writes the data and closes the file.\<close>

definition WriteFile :: "world \<Rightarrow> string \<Rightarrow> string \<Rightarrow> world \<times> error option" where
  "WriteFile w name data =
     (case OpenFile w name of
        (w1, Some err) \<Rightarrow> (w1, Some err)
      | (w1, None) \<Rightarrow>
          (case file_Write w1 (resolve w name) data of (w2, n, err) \<Rightarrow> (w2, err)))"

section \<open>Writers and copying\<close>

text \<open>
  The writers the program hands to \<open>io.MultiWriter\<close>: an open file (named by its absolute
  path), the SHA-256 accumulator \<open>h\<close> (the bytes written to it so far; \<open>h.Sum\<close> is SHA-256 of
  them) and the progress bar (the number of bytes counted so far).
\<close>

datatype sink = FileSink "string list" | HashSink string | BarSink nat

fun sink_Write :: "world \<Rightarrow> sink \<Rightarrow> string \<Rightarrow> world \<times> sink \<times> nat \<times> error option" where
  "sink_Write w (FileSink p) b =
     (case file_Write w p b of (w', n, err) \<Rightarrow> (w', FileSink p, n, err))"
| "sink_Write w (HashSink acc) b = (w, HashSink (acc @ b), length b, None)"
| "sink_Write w (BarSink n) b = (w, BarSink (n + length b), length b, None)"

definition hashed :: "sink \<Rightarrow> string" where
  "hashed s = (case s of HashSink acc \<Rightarrow> acc | _ \<Rightarrow> [])"

text \<open>
  \<open>multiWriter.Write\<close>: the writers are written to in order; the first error, or the first
  short write, ends the call, and the writers after it do not see the bytes.
\<close>

fun multi_Write ::
  "world \<Rightarrow> sink list \<Rightarrow> string \<Rightarrow> world \<times> sink list \<times> nat \<times> error option" where
  "multi_Write w [] p = (w, [], length p, None)"
| "multi_Write w (s # ss) p =
     (case sink_Write w s p of
        (w', s', n, Some err) \<Rightarrow> (w', s' # ss, n, Some err)
      | (w', s', n, None) \<Rightarrow>
          if n \<noteq> length p then (w', s' # ss, n, Some ErrShortWrite)
          else (case multi_Write w' ss p of (w'', ss', n', err) \<Rightarrow> (w'', s' # ss', n', err)))"

text \<open>
  The loop of \<open>io.Copy\<close>: what each \<open>Read\<close> returns is written at once; a write error or a
  short write ends the loop, and so does the end of the reader, with its error unless that is
  \<open>io.EOF\<close>. The result holds the number of bytes written and the error.
\<close>

fun copy_loop ::
  "world \<Rightarrow> sink list \<Rightarrow> string list \<Rightarrow> error option
    \<Rightarrow> world \<times> sink list \<times> nat \<times> error option" where
  "copy_loop w dst [] er = (w, dst, 0, er)"
| "copy_loop w dst (buf # bufs) er =
     (if buf = [] then copy_loop w dst bufs er
      else (case multi_Write w dst buf of
              (w', dst', nw, Some ew) \<Rightarrow> (w', dst', nw, Some ew)
            | (w', dst', nw, None) \<Rightarrow>
                if length buf \<noteq> nw then (w', dst', nw, Some ErrShortWrite)
                else (case copy_loop w' dst' bufs er of
                        (w'', dst'', n, err) \<Rightarrow> (w'', dst'', nw + n, err))))"

definition io_Copy ::
  "world \<Rightarrow> sink list \<Rightarrow> reader \<Rightarrow> world \<times> sink list \<times> nat \<times> error option" where
  "io_Copy w dst src = copy_loop w dst (fst src) (snd src)"

definition ReadAll :: "reader \<Rightarrow> error + string" where
  "ReadAll r = (case snd r of None \<Rightarrow> Inr (concat (fst r)) | Some err \<Rightarrow> Inl err)"

text \<open>\<open>fmt.Sprintf "%x"\<close> of a byte slice: two lower-case hexadecimal digits for each byte.\<close>

definition hex_digit :: "nat \<Rightarrow> char" where
  "hex_digit n = ''0123456789abcdef'' ! n"

definition hex :: "string \<Rightarrow> string" where
  "hex bs = concat (map (\<lambda>c. [hex_digit (of_char c div 16), hex_digit (of_char c mod 16)]) bs)"

text \<open>
  \<open>strconv.Atoi\<close> where \<open>int\<close> has 64 bits. It is \<open>ParseInt s 10 0\<close> (the fast path for
  strings of fewer than 19 bytes gives the same results): a sign is picked off, then
  \<open>ParseUint\<close> reads the bytes from left to right and stops at the first byte that is not a
  digit (a syntax error) or at the first digit with which the number no longer fits 64 bits (a
  range error), whichever comes first; in the end the number must fit a signed 64-bit integer.
\<close>

fun parse_uint :: "int \<Rightarrow> string \<Rightarrow> error + int" where
  "parse_uint n [] = Inr n"
| "parse_uint n (c # cs) =
     (if c \<notin> set numbers then Inl ErrSyntax
      else if n \<ge> (2 ^ 64 - 1) div 10 + 1 then Inl ErrRange
      else if n * 10 + (of_char c - 48) > 2 ^ 64 - 1 then Inl ErrRange
      else parse_uint (n * 10 + (of_char c - 48)) cs)"

definition Atoi :: "string \<Rightarrow> error + int" where
  "Atoi s =
     (let neg = (s \<noteq> [] \<and> hd s = CHR ''-'');
          ds = (if s \<noteq> [] \<and> (hd s = CHR ''+'' \<or> hd s = CHR ''-'') then tl s else s)
      in if ds = [] then Inl ErrSyntax
         else (case parse_uint 0 ds of
                 Inl err \<Rightarrow> Inl err
               | Inr un \<Rightarrow>
                   if \<not> neg \<and> un \<ge> 2 ^ 63 then Inl ErrRange
                   else if neg \<and> un > 2 ^ 63 then Inl ErrRange
                   else Inr (if neg then - un else un)))"

text \<open>
  \<open>http.Get\<close> and \<open>http.DefaultClient.Do\<close> of a GET request: the request is logged and
  answered by the server of its URL.
\<close>

definition http_Get :: "environment \<Rightarrow> world \<Rightarrow> string \<Rightarrow> world \<times> (error + response)" where
  "http_Get E w url = (w\<lparr>log := log w @ [HttpGet url]\<rparr>, remote E url)"

section \<open>Extraction\<close>

text \<open>
  \<open>unpack\<close> (lines 119 to 145). \<open>entry_path\<close> is the path it computes first (lines 120 to
  124).
\<close>

definition entry_path :: "string \<Rightarrow> string \<Rightarrow> string" where
  "entry_path dest name =
     Join [dest, if HasPrefix name ''go/'' then drop (length ''go/'') name else name]"

definition unpack :: "world \<Rightarrow> string \<Rightarrow> string \<Rightarrow> entry \<Rightarrow> world \<times> error option" where
  "unpack w dest name fi =
     (let path = entry_path dest name
      in if IsDir fi then MkdirAll w path
         else (case OpenFile w path of
                 (w1, Some err) \<Rightarrow> (w1, Some err)
               | (w1, None) \<Rightarrow>
                   (case io_Copy w1 [FileSink (resolve w path), BarSink 0] (Data fi) of
                      (w2, dst, n, err) \<Rightarrow> (w2, err))))"

text \<open>The loop of \<open>unpackTar\<close>: \<open>Next\<close> gives the entries in order, then \<open>io.EOF\<close> or an error.\<close>

fun unpack_entries ::
  "world \<Rightarrow> string \<Rightarrow> entry list \<Rightarrow> error option \<Rightarrow> world \<times> error option" where
  "unpack_entries w dest [] end_err = (w, end_err)"
| "unpack_entries w dest (header # rest) end_err =
     (case unpack w dest (Name header) header of
        (w', Some err) \<Rightarrow> (w', Some err)
      | (w', None) \<Rightarrow> unpack_entries w' dest rest end_err)"

text \<open>\<open>unpackTar\<close> (lines 147 to 176).\<close>

definition unpackTar :: "environment \<Rightarrow> world \<Rightarrow> string \<Rightarrow> string \<Rightarrow> world \<times> error option" where
  "unpackTar E w src dest =
     (case ReadFile w src of
        Inl err \<Rightarrow> (w, Some err)
      | Inr bytes \<Rightarrow>
          (case gunzip_tar E bytes of
             Inl err \<Rightarrow> (w, Some err)
           | Inr archive \<Rightarrow> unpack_entries w dest (fst archive) (snd archive)))"

text \<open>\<open>unpackZip\<close> (lines 178 to 196): each entry is opened, then unpacked.\<close>

fun unpack_files :: "world \<Rightarrow> string \<Rightarrow> entry list \<Rightarrow> world \<times> error option" where
  "unpack_files w dest [] = (w, None)"
| "unpack_files w dest (f # rest) =
     (case OpenErr f of
        Some err \<Rightarrow> (w, Some err)
      | None \<Rightarrow>
          (case unpack w dest (Name f) f of
             (w', Some err) \<Rightarrow> (w', Some err)
           | (w', None) \<Rightarrow> unpack_files w' dest rest))"

definition unpackZip :: "environment \<Rightarrow> world \<Rightarrow> string \<Rightarrow> string \<Rightarrow> world \<times> error option" where
  "unpackZip E w src dest =
     (case ReadFile w src of
        Inl err \<Rightarrow> (w, Some err)
      | Inr bytes \<Rightarrow>
          (case unzip E bytes of
             Inl err \<Rightarrow> (w, Some err)
           | Inr files \<Rightarrow> unpack_files w dest files))"

section \<open>Download\<close>

text \<open>
  \<open>downloadGoVersion\<close> (lines 33 to 117) is modelled in four parts, each continuing with the
  next: \<open>fetch\<close> is the request for the archive (lines 34 to 61), \<open>store\<close> the copy of
  the body to the cache file (lines 63 to 83), \<open>verify\<close> the sidecar and the comparison of the
  digests (lines 85 to 103), and \<open>install\<close> the replacement of the destination (lines 105 to
  116). The first three end with an error, or with the name of the cache file and the digest
  that has been verified.
\<close>

definition proxy :: "environment \<Rightarrow> world \<Rightarrow> world" where
  "proxy E w =
     (if DefaultProxyURL E \<noteq> [] then Setenv w ''HTTPS_PROXY'' (DefaultProxyURL E) else w)"

definition verify ::
  "environment \<Rightarrow> world \<Rightarrow> string \<Rightarrow> string \<Rightarrow> string \<Rightarrow> world \<times> (error + string \<times> string)" where
  "verify E w5 uri targetName acc =
     (case http_Get E w5 (uri @ ''.sha256'') of
        (w6, Inl err) \<Rightarrow> (w6, Inl (SidecarFailed uri err))
      | (w6, Inr sresp) \<Rightarrow>
          if StatusCode sresp > 299 then (w6, Inl (SidecarStatus uri (StatusCode sresp)))
          else (case ReadAll (Body sresp) of
                  Inl err \<Rightarrow> (w6, Inl err)
                | Inr shasum \<Rightarrow>
                    (let sum = hex (sha256 E acc)
                     in if sum \<noteq> shasum then (w6, Inl (ChecksumMismatch sum shasum))
                        else (w6, Inr (targetName, sum)))))"

definition store ::
  "environment \<Rightarrow> world \<Rightarrow> string \<Rightarrow> string \<Rightarrow> reader \<Rightarrow> world \<times> (error + string \<times> string)" where
  "store E w1 uri target body =
     (let cachePath = Join [''cache'', ''downloads''];
          w2 = fst (MkdirAll w1 cachePath);
          targetName = Join [cachePath, target];
          w3 = fst (Remove w2 targetName)
      in (case OpenFile w3 targetName of
            (w4, Some err) \<Rightarrow> (w4, Inl err)
          | (w4, None) \<Rightarrow>
              (case io_Copy w4 [FileSink (resolve w4 targetName), HashSink [], BarSink 0] body of
                 (w5, dst, n, Some err) \<Rightarrow> (w5, Inl err)
               | (w5, dst, n, None) \<Rightarrow> verify E w5 uri targetName (hashed (dst ! 1)))))"

definition fetch ::
  "environment \<Rightarrow> world \<Rightarrow> string \<Rightarrow> world \<times> (error + string \<times> string)" where
  "fetch E w target =
     (let w0 = proxy E w;
          uri = DefaultDownloadURLPrefix E @ ''/'' @ target
      in if \<not> url_ok E uri then (w0, Inl ErrInvalidURL)
         else (case http_Get E w0 uri of
                 (w1, Inl err) \<Rightarrow> (w1, Inl (DownloadFailed err))
               | (w1, Inr resp) \<Rightarrow>
                   if StatusCode resp > 299
                   then (w1, Inl (DownloadStatus (StatusCode resp) uri))
                   else (case Atoi (ContentLength resp) of
                           Inl err \<Rightarrow> (w1, Inl err)
                         | Inr size' \<Rightarrow> store E w1 uri target (Body resp))))"

definition install :: "environment \<Rightarrow> world \<Rightarrow> string \<Rightarrow> string \<Rightarrow> world \<times> error option" where
  "install E w targetName dest =
     (let unpackFn = (if GOOS E = ''windows'' then unpackZip else unpackTar);
          w7 = fst (RemoveAll (w\<lparr>log := log w @ [RemoveAllCall dest]\<rparr>) dest)
      in (case unpackFn E (w7\<lparr>log := log w7 @ [UnpackCall targetName dest]\<rparr>) targetName dest of
            (w8, Some err) \<Rightarrow> (w8, Some (UnpackFailed dest err))
          | (w8, None) \<Rightarrow> (w8, None)))"

definition downloadGoVersion ::
  "environment \<Rightarrow> world \<Rightarrow> string \<Rightarrow> string \<Rightarrow> world \<times> error option" where
  "downloadGoVersion E w target dest =
     (case fetch E w target of
        (w6, Inl err) \<Rightarrow> (w6, Some err)
      | (w6, Inr (targetName, digest)) \<Rightarrow> install E w6 targetName dest)"

section \<open>The cached listing\<close>

text \<open>
  \<open>Time.Sub\<close> gives a \<open>Duration\<close>, a 64-bit count of nanoseconds, and saturates at its
  bounds.
\<close>

definition maxDuration :: int where
  "maxDuration = 2 ^ 63 - 1"

definition minDuration :: int where
  "minDuration = - (2 ^ 63)"

definition Sub :: "int \<Rightarrow> int \<Rightarrow> int" where
  "Sub t u =
     (if t - u > maxDuration then maxDuration
      else if t - u < minDuration then minDuration
      else t - u)"

definition Hour :: int where
  "Hour = 60 * 60 * 1000000000"

text \<open>The closure \<open>getRemoteVersion\<close> (lines 199 to 224).\<close>

definition getRemoteVersion ::
  "environment \<Rightarrow> world \<Rightarrow> string \<Rightarrow> world \<times> (error + string)" where
  "getRemoteVersion E w name =
     (case http_Get E (proxy E w) (DefaultSourceURL E) of
        (w1, Inl err) \<Rightarrow> (w1, Inl (VersionConnect err))
      | (w1, Inr resp) \<Rightarrow>
          if StatusCode resp > 299 then (w1, Inl (VersionStatus (StatusCode resp)))
          else (case ReadAll (Body resp) of
                  Inl err \<Rightarrow> (w1, Inl err)
                | Inr b \<Rightarrow>
                    (case WriteFile w1 name b of
                       (w2, Some err) \<Rightarrow> (w2, Inl (CacheWriteError err))
                     | (w2, None) \<Rightarrow> (w2, Inr b))))"

text \<open>
  Lines 226 to 249: where the bytes of the listing come from. When \<open>os.Stat\<close> fails with an
  error other than "not exist", \<open>fi\<close> is nil and \<open>fi.ModTime()\<close> panics.
\<close>

definition load_listing :: "environment \<Rightarrow> world \<Rightarrow> world \<times> (error + string)" where
  "load_listing E w =
     (let versionName = Join [''cache'', ''VERSION'']
      in (case Stat w versionName of
            Inl e \<Rightarrow>
              if IsNotExist e then getRemoteVersion E w versionName
              else (w, Inl Panic)
          | Inr fi \<Rightarrow>
              if Sub (now w) (ModTime fi) < Hour * 72
              then (case ReadFile w versionName of
                      Inl err \<Rightarrow> (w, Inl (CacheReadError err))
                    | Inr b \<Rightarrow> (w, Inr b))
              else getRemoteVersion E w versionName))"

definition getAllGoVersion :: "environment \<Rightarrow> world \<Rightarrow> world \<times> (error + string list)" where
  "getAllGoVersion E w =
     (case load_listing E w of
        (w', Inl err) \<Rightarrow> (w', Inl err)
      | (w', Inr b) \<Rightarrow> (w', Inr (versions_of b)))"

section \<open>Normalization and parsing\<close>

subsection \<open>Strings without the first character of the pattern\<close>


lemma HasPrefix_append: "HasPrefix (p @ ys) p"
  by (simp add: HasPrefix_def)

lemma HasPrefix_Cons_neq: "x \<noteq> c \<Longrightarrow> \<not> HasPrefix (x # s) (c # sub)"
  by (simp add: HasPrefix_def)

lemma Index_first:
  "c \<notin> set xs \<Longrightarrow> Index (xs @ c # sub @ ys) (c # sub) = Some (length xs)"
proof (induction xs)
  case Nil
  have "HasPrefix (c # sub @ ys) (c # sub)"
    using HasPrefix_append [of "c # sub" ys] by simp
  then show ?case by simp
next
  case (Cons x xs)
  then have "\<not> HasPrefix (x # xs @ c # sub @ ys) (c # sub)"
    by (intro HasPrefix_Cons_neq) auto
  with Cons show ?case by simp
qed

lemma Index_absent: "c \<notin> set s \<Longrightarrow> Index s (c # sub) = None"
  by (induction s) (auto simp: HasPrefix_def)

lemma Contains_first: "c \<notin> set xs \<Longrightarrow> Contains (xs @ c # sub @ ys) (c # sub)"
  by (simp add: Contains_def Index_first)

lemma Contains_absent: "c \<notin> set s \<Longrightarrow> \<not> Contains s (c # sub)"
  by (simp add: Contains_def Index_absent)

lemma Replace_absent: "c \<notin> set s \<Longrightarrow> Replace s (c # sub) new = s"
  by (subst Replace.simps) (simp add: Index_absent)

lemma Replace_first:
  "c \<notin> set xs \<Longrightarrow>
     Replace (xs @ c # sub @ ys) (c # sub) new = xs @ new @ Replace ys (c # sub) new"
  by (subst Replace.simps) (simp add: Index_first)

lemma Split_absent: "c \<notin> set s \<Longrightarrow> Split s [c] = [s]"
  by (subst Split.simps) (simp add: Index_absent)

lemma Split_first: "c \<notin> set xs \<Longrightarrow> Split (xs @ c # ys) [c] = xs # Split ys [c]"
  using Index_first [of c xs "[]" ys] by (subst Split.simps) simp


text \<open>
  A numeric section as the parser accepts it: a non-empty string of digits without a leading
  zero, whose value fits 64 bits. A marker is \<open>beta\<close> or \<open>rc\<close>.
\<close>

definition numeric_section :: "string \<Rightarrow> bool" where
  "numeric_section s =
     (s \<noteq> [] \<and> containsOnly s numbers \<and> \<not> hasLeadingZeroes s \<and> digits_value s < 2 ^ 64)"

definition marker :: "string \<Rightarrow> bool" where
  "marker mk = (mk = ''beta'' \<or> mk = ''rc'')"

lemma containsOnly_subset: "containsOnly s cs \<Longrightarrow> set s \<subseteq> set cs"
  by (auto simp: containsOnly_def list_all_iff)

lemma not_numbers:
  "CHR ''.'' \<notin> set numbers" "CHR ''b'' \<notin> set numbers" "CHR ''r'' \<notin> set numbers"
  "CHR ''+'' \<notin> set numbers" "CHR ''-'' \<notin> set numbers"
  by (simp_all add: numbers_def)

lemma digits_chars:
  assumes "containsOnly s numbers"
  shows "CHR ''.'' \<notin> set s" "CHR ''b'' \<notin> set s" "CHR ''r'' \<notin> set s"
    "CHR ''+'' \<notin> set s" "CHR ''-'' \<notin> set s"
  using containsOnly_subset [OF assms] not_numbers by blast+

lemma numeric_section_digits: "numeric_section s \<Longrightarrow> containsOnly s numbers"
  unfolding numeric_section_def by blast

lemma parse_number_section: "numeric_section s \<Longrightarrow> parse_number s = Some (digits_value s)"
  unfolding numeric_section_def parse_number_def ParseUint_def by presburger

lemma parse_number_zero: "parse_number ''0'' = Some 0"
  by (simp add: parse_number_def ParseUint_def containsOnly_def numbers_def
      hasLeadingZeroes_def digits_value_def)

lemma marker_chars:
  assumes "marker mk"
  shows "CHR ''.'' \<notin> set mk" "CHR ''+'' \<notin> set mk" "CHR ''-'' \<notin> set mk"
    "mk \<noteq> []" "\<not> containsOnly (mk @ d) numbers" "containsOnly mk alphanum"
  using assms by (auto simp: marker_def containsOnly_def numbers_def alphanum_def)

lemma digits_alphanum: "containsOnly d numbers \<Longrightarrow> containsOnly d alphanum"
  by (auto simp: containsOnly_def alphanum_def list_all_iff)

lemma NewPRVersion_marker:
  assumes "marker mk" and "containsOnly d numbers"
  shows "NewPRVersion (mk @ d) = Some (PRStr (mk @ d))"
proof -
  have "containsOnly (mk @ d) alphanum"
    using marker_chars(6) [OF assms(1)] digits_alphanum [OF assms(2)]
    by (simp add: containsOnly_def)
  then show ?thesis
    using marker_chars(4,5) [OF assms(1)] by (simp add: NewPRVersion_def)
qed

subsection \<open>The shape of the normalized version\<close>

lemma normalize_one:
  assumes "containsOnly n numbers"
  shows "normalizeVersion n = n @ ''.0.0''"
  using Split_absent [OF digits_chars(1) [OF assms]]
  by (simp add: normalizeVersion_def)

lemma normalize_two:
  assumes "containsOnly n numbers" and "containsOnly m numbers"
  shows "normalizeVersion (n @ ''.'' @ m) = n @ ''.'' @ m @ ''.0''"
proof -
  let ?v = "n @ CHR ''.'' # m"
  have sp: "Split ?v ''.'' = [n, m]"
    using Split_first [OF digits_chars(1) [OF assms(1)], of m]
      Split_absent [OF digits_chars(1) [OF assms(2)]] by simp
  have nb: "\<not> Contains ?v ''beta''"
    using digits_chars(2) [OF assms(1)] digits_chars(2) [OF assms(2)]
    by (intro Contains_absent) simp
  have nr: "\<not> Contains ?v ''rc''"
    using digits_chars(3) [OF assms(1)] digits_chars(3) [OF assms(2)]
    by (intro Contains_absent) simp
  show ?thesis
    using sp nb nr by (simp add: normalizeVersion_def)
qed


lemma Split_two:
  assumes "CHR ''.'' \<notin> set n" and "CHR ''.'' \<notin> set r"
  shows "Split (n @ CHR ''.'' # r) ''.'' = [n, r]"
  using Split_first [OF assms(1), of r] Split_absent [OF assms(2)] by simp

lemma Split_three:
  assumes "CHR ''.'' \<notin> set n" and "CHR ''.'' \<notin> set m" and "CHR ''.'' \<notin> set r"
  shows "Split (n @ CHR ''.'' # m @ CHR ''.'' # r) ''.'' = [n, m, r]"
  using Split_first [OF assms(1), of "m @ CHR ''.'' # r"] Split_two [OF assms(2,3)] by simp

lemma normalize_two_beta:
  assumes "containsOnly n numbers" and "containsOnly m numbers" and "containsOnly d numbers"
  shows "normalizeVersion (n @ ''.'' @ m @ ''beta'' @ d) = n @ ''.'' @ m @ ''.0-beta'' @ d"
proof -
  let ?xs = "n @ CHR ''.'' # m"
  have sp: "Split (?xs @ ''beta'' @ d) ''.'' = [n, m @ ''beta'' @ d]"
    using Split_two [of n "m @ ''beta'' @ d"] digits_chars(1) [OF assms(1)]
      digits_chars(1) [OF assms(2)] digits_chars(1) [OF assms(3)] by simp
  have nb: "CHR ''b'' \<notin> set ?xs"
    using digits_chars(2) [OF assms(1)] digits_chars(2) [OF assms(2)] by simp
  have c: "Contains (?xs @ ''beta'' @ d) ''beta''"
    using Contains_first [OF nb, of "''eta''" d] by simp
  have r: "Replace (?xs @ ''beta'' @ d) ''beta'' ''.0-beta'' = ?xs @ ''.0-beta'' @ d"
    using Replace_first [OF nb, of "''eta''" d "''.0-beta''"]
      Replace_absent [OF digits_chars(2) [OF assms(3)], of "''eta''" "''.0-beta''"] by simp
  show ?thesis
    using sp c r by (simp add: normalizeVersion_def)
qed

lemma normalize_two_rc:
  assumes "containsOnly n numbers" and "containsOnly m numbers" and "containsOnly d numbers"
  shows "normalizeVersion (n @ ''.'' @ m @ ''rc'' @ d) = n @ ''.'' @ m @ ''.0-rc'' @ d"
proof -
  let ?xs = "n @ CHR ''.'' # m"
  have sp: "Split (?xs @ ''rc'' @ d) ''.'' = [n, m @ ''rc'' @ d]"
    using Split_two [of n "m @ ''rc'' @ d"] digits_chars(1) [OF assms(1)]
      digits_chars(1) [OF assms(2)] digits_chars(1) [OF assms(3)] by simp
  have "CHR ''b'' \<notin> set (?xs @ ''rc'' @ d)"
    using digits_chars(2) [OF assms(1)] digits_chars(2) [OF assms(2)]
      digits_chars(2) [OF assms(3)] by simp
  then have nb: "\<not> Contains (?xs @ ''rc'' @ d) ''beta''"
    by (rule Contains_absent)
  have nr: "CHR ''r'' \<notin> set ?xs"
    using digits_chars(3) [OF assms(1)] digits_chars(3) [OF assms(2)] by simp
  have c: "Contains (?xs @ ''rc'' @ d) ''rc''"
    using Contains_first [OF nr, of "''c''" d] by simp
  have r: "Replace (?xs @ ''rc'' @ d) ''rc'' ''.0-rc'' = ?xs @ ''.0-rc'' @ d"
    using Replace_first [OF nr, of "''c''" d "''.0-rc''"]
      Replace_absent [OF digits_chars(3) [OF assms(3)], of "''c''" "''.0-rc''"] by simp
  show ?thesis
    using sp nb c r by (simp add: normalizeVersion_def)
qed

lemma normalize_three:
  assumes "containsOnly n numbers" and "containsOnly m numbers" and "containsOnly p numbers"
  shows "normalizeVersion (n @ ''.'' @ m @ ''.'' @ p) = n @ ''.'' @ m @ ''.'' @ p"
proof -
  let ?v = "n @ CHR ''.'' # m @ CHR ''.'' # p"
  have sp: "Split ?v ''.'' = [n, m, p]"
    using Split_three digits_chars(1) assms by blast
  have "CHR ''b'' \<notin> set ?v"
    using digits_chars(2) [OF assms(1)] digits_chars(2) [OF assms(2)]
      digits_chars(2) [OF assms(3)] by simp
  then have nb: "\<not> Contains ?v ''beta''" by (rule Contains_absent)
  have "CHR ''r'' \<notin> set ?v"
    using digits_chars(3) [OF assms(1)] digits_chars(3) [OF assms(2)]
      digits_chars(3) [OF assms(3)] by simp
  then have nr: "\<not> Contains ?v ''rc''" by (rule Contains_absent)
  show ?thesis
    using sp nb nr by (simp add: normalizeVersion_def)
qed

lemma normalize_three_rc:
  assumes "containsOnly n numbers" and "containsOnly m numbers" and "containsOnly p numbers"
    and "containsOnly d numbers"
  shows "normalizeVersion (n @ ''.'' @ m @ ''.'' @ p @ ''rc'' @ d)
         = n @ ''.'' @ m @ ''.'' @ p @ ''-rc'' @ d"
proof -
  let ?xs = "n @ CHR ''.'' # m @ CHR ''.'' # p"
  have sp: "Split (?xs @ ''rc'' @ d) ''.'' = [n, m, p @ ''rc'' @ d]"
    using Split_three [of n m "p @ ''rc'' @ d"] digits_chars(1) [OF assms(1)]
      digits_chars(1) [OF assms(2)] digits_chars(1) [OF assms(3)]
      digits_chars(1) [OF assms(4)] by simp
  have nr: "CHR ''r'' \<notin> set ?xs"
    using digits_chars(3) [OF assms(1)] digits_chars(3) [OF assms(2)]
      digits_chars(3) [OF assms(3)] by simp
  have c: "Contains (?xs @ ''rc'' @ d) ''rc''"
    using Contains_first [OF nr, of "''c''" d] by simp
  have r: "Replace (?xs @ ''rc'' @ d) ''rc'' ''-rc'' = ?xs @ ''-rc'' @ d"
    using Replace_first [OF nr, of "''c''" d "''-rc''"]
      Replace_absent [OF digits_chars(3) [OF assms(4)], of "''c''" "''-rc''"] by simp
  show ?thesis
    using sp c r by (simp add: normalizeVersion_def)
qed

lemma normalize_three_beta:
  assumes "containsOnly n numbers" and "containsOnly m numbers" and "containsOnly p numbers"
    and "containsOnly d numbers"
  shows "normalizeVersion (n @ ''.'' @ m @ ''.'' @ p @ ''beta'' @ d)
         = n @ ''.'' @ m @ ''.'' @ p @ ''-beta'' @ d"
proof -
  let ?xs = "n @ CHR ''.'' # m @ CHR ''.'' # p"
  have sp: "Split (?xs @ ''beta'' @ d) ''.'' = [n, m, p @ ''beta'' @ d]"
    using Split_three [of n m "p @ ''beta'' @ d"] digits_chars(1) [OF assms(1)]
      digits_chars(1) [OF assms(2)] digits_chars(1) [OF assms(3)]
      digits_chars(1) [OF assms(4)] by simp
  have "CHR ''r'' \<notin> set (?xs @ ''beta'' @ d)"
    using digits_chars(3) [OF assms(1)] digits_chars(3) [OF assms(2)]
      digits_chars(3) [OF assms(3)] digits_chars(3) [OF assms(4)] by simp
  then have nr: "\<not> Contains (?xs @ ''beta'' @ d) ''rc''" by (rule Contains_absent)
  have nb: "CHR ''b'' \<notin> set ?xs"
    using digits_chars(2) [OF assms(1)] digits_chars(2) [OF assms(2)]
      digits_chars(2) [OF assms(3)] by simp
  have c: "Contains (?xs @ ''beta'' @ d) ''beta''"
    using Contains_first [OF nb, of "''eta''" d] by simp
  have r: "Replace (?xs @ ''beta'' @ d) ''beta'' ''-beta'' = ?xs @ ''-beta'' @ d"
    using Replace_first [OF nb, of "''eta''" d "''-beta''"]
      Replace_absent [OF digits_chars(2) [OF assms(4)], of "''eta''" "''-beta''"] by simp
  show ?thesis
    using sp nr c r by (simp add: normalizeVersion_def)
qed


subsection \<open>Parsing the normalized version\<close>

lemma Index_char: "c \<notin> set xs \<Longrightarrow> Index (xs @ c # ys) [c] = Some (length xs)"
  using Index_first [of c xs "[]" ys] by simp

lemma SplitN3_three:
  assumes "CHR ''.'' \<notin> set n" and "CHR ''.'' \<notin> set m"
  shows "SplitN3 (n @ CHR ''.'' # m @ CHR ''.'' # r) = [n, m, r]"
  using Index_char [OF assms(1), of "m @ CHR ''.'' # r"] Index_char [OF assms(2), of r]
  by (simp add: SplitN3_def)

lemma Parse_plain:
  assumes "numeric_section n" and "numeric_section m" and "parse_number p = Some k"
    and "CHR ''+'' \<notin> set p" and "CHR ''-'' \<notin> set p"
  shows "Parse (n @ CHR ''.'' # m @ CHR ''.'' # p)
         = Some \<lparr>Major = digits_value n, Minor = digits_value m, Patch = k, Pre = [], Build = []\<rparr>"
proof -
  have sp: "SplitN3 (n @ CHR ''.'' # m @ CHR ''.'' # p) = [n, m, p]"
    using assms(1,2) by (intro SplitN3_three digits_chars(1) numeric_section_digits)
  show ?thesis
    using sp parse_number_section [OF assms(1)] parse_number_section [OF assms(2)] assms(3)
      Index_absent [OF assms(4), of "[]"] Index_absent [OF assms(5), of "[]"]
    by (simp add: Parse_def)
qed

lemma Parse_pre:
  assumes "numeric_section n" and "numeric_section m" and "parse_number p = Some k"
    and "CHR ''+'' \<notin> set p" and "CHR ''-'' \<notin> set p"
    and "CHR ''+'' \<notin> set pr" and "CHR ''.'' \<notin> set pr" and "NewPRVersion pr = Some v"
  shows "Parse (n @ CHR ''.'' # m @ CHR ''.'' # p @ CHR ''-'' # pr)
         = Some \<lparr>Major = digits_value n, Minor = digits_value m, Patch = k, Pre = [v], Build = []\<rparr>"
proof -
  have sp: "SplitN3 (n @ CHR ''.'' # m @ CHR ''.'' # p @ CHR ''-'' # pr) = [n, m, p @ CHR ''-'' # pr]"
    using assms(1,2) by (intro SplitN3_three digits_chars(1) numeric_section_digits)
  have plus: "Index (p @ CHR ''-'' # pr) ''+'' = None"
    using assms(4,6) by (intro Index_absent) simp
  have minus: "Index (p @ CHR ''-'' # pr) ''-'' = Some (length p)"
    using assms(5) by (rule Index_char)
  have pre: "Split pr ''.'' = [pr]"
    using assms(7) by (rule Split_absent)
  show ?thesis
    using sp parse_number_section [OF assms(1)] parse_number_section [OF assms(2)] assms(3,8)
      plus minus pre
    by (simp add: Parse_def)
qed


lemma normalize_two_marker:
  assumes "containsOnly n numbers" and "containsOnly m numbers" and "marker mk"
    and "containsOnly d numbers"
  shows "normalizeVersion (n @ ''.'' @ m @ mk @ d) = n @ ''.'' @ m @ ''.0-'' @ mk @ d"
  using assms(3) normalize_two_beta [OF assms(1,2,4)] normalize_two_rc [OF assms(1,2,4)]
  unfolding marker_def by auto

lemma normalize_three_marker:
  assumes "containsOnly n numbers" and "containsOnly m numbers" and "containsOnly p numbers"
    and "marker mk" and "containsOnly d numbers"
  shows "normalizeVersion (n @ ''.'' @ m @ ''.'' @ p @ mk @ d)
         = n @ ''.'' @ m @ ''.'' @ p @ ''-'' @ mk @ d"
  using assms(4) normalize_three_beta [OF assms(1,2,3,5)] normalize_three_rc [OF assms(1,2,3,5)]
  unfolding marker_def by auto

lemma Make_Some: "Parse s = Some v \<Longrightarrow> Make s = (v, True)"
  by (simp add: Make_def)

lemma pre_chars:
  assumes "marker mk" and "containsOnly d numbers"
  shows "CHR ''+'' \<notin> set (mk @ d)" "CHR ''.'' \<notin> set (mk @ d)"
  using marker_chars(1,2) [OF assms(1)] digits_chars(1,4) [OF assms(2)] by simp_all

text \<open>
  Claim C4, amended. The claim (every tag with one, two or three numeric sections, with or without
  a \<open>beta\<close>/\<open>rc\<close> marker, normalizes to the documented shape and the normalized form
  parses) holds for the tags \<open>N\<close>, \<open>N.M\<close>, \<open>N.M<marker>D\<close>, \<open>N.M.P\<close> and
  \<open>N.M.P<marker>D\<close>, where \<open>N\<close>, \<open>M\<close>, \<open>P\<close> are decimal numerals without leading zeros
  and below \<open>2 ^ 64\<close>, the marker is \<open>beta\<close> or \<open>rc\<close> and \<open>D\<close> is a string of digits: the
  normalized forms are \<open>N.0.0\<close>, \<open>N.M.0\<close>, \<open>N.M.0-<marker>D\<close>, \<open>N.M.P\<close> and
  \<open>N.M.P-<marker>D\<close>, and \<open>semver.Make\<close> returns the version with these numbers, the
  prerelease \<open><marker>D\<close> and no error.
\<close>

theorem C4_normalized_form_parses:
  assumes "numeric_section n" and "numeric_section m" and "numeric_section p"
    and "marker mk" and "containsOnly d numbers"
  shows
    "(normalizeVersion n = n @ ''.0.0''
      \<and> Make (normalizeVersion n)
          = (\<lparr>Major = digits_value n, Minor = 0, Patch = 0, Pre = [], Build = []\<rparr>, True))
     \<and> (normalizeVersion (n @ ''.'' @ m) = n @ ''.'' @ m @ ''.0''
      \<and> Make (normalizeVersion (n @ ''.'' @ m))
          = (\<lparr>Major = digits_value n, Minor = digits_value m, Patch = 0, Pre = [],
              Build = []\<rparr>, True))
     \<and> (normalizeVersion (n @ ''.'' @ m @ mk @ d) = n @ ''.'' @ m @ ''.0-'' @ mk @ d
      \<and> Make (normalizeVersion (n @ ''.'' @ m @ mk @ d))
          = (\<lparr>Major = digits_value n, Minor = digits_value m, Patch = 0,
              Pre = [PRStr (mk @ d)], Build = []\<rparr>, True))
     \<and> (normalizeVersion (n @ ''.'' @ m @ ''.'' @ p) = n @ ''.'' @ m @ ''.'' @ p
      \<and> Make (normalizeVersion (n @ ''.'' @ m @ ''.'' @ p))
          = (\<lparr>Major = digits_value n, Minor = digits_value m, Patch = digits_value p,
              Pre = [], Build = []\<rparr>, True))
     \<and> (normalizeVersion (n @ ''.'' @ m @ ''.'' @ p @ mk @ d)
          = n @ ''.'' @ m @ ''.'' @ p @ ''-'' @ mk @ d
      \<and> Make (normalizeVersion (n @ ''.'' @ m @ ''.'' @ p @ mk @ d))
          = (\<lparr>Major = digits_value n, Minor = digits_value m, Patch = digits_value p,
              Pre = [PRStr (mk @ d)], Build = []\<rparr>, True))"
proof -
  note dn = numeric_section_digits [OF assms(1)]
  note dm = numeric_section_digits [OF assms(2)]
  note dp = numeric_section_digits [OF assms(3)]
  have zero: "numeric_section ''0''"
    by (simp add: numeric_section_def containsOnly_def numbers_def hasLeadingZeroes_def
        digits_value_def)
  have z: "digits_value ''0'' = 0" by (simp add: digits_value_def)
  have pz: "CHR ''+'' \<notin> set ''0''" "CHR ''-'' \<notin> set ''0''" by simp_all
  have one: "Make (n @ ''.0.0'')
      = (\<lparr>Major = digits_value n, Minor = 0, Patch = 0, Pre = [], Build = []\<rparr>, True)"
    using Parse_plain [OF assms(1) zero parse_number_zero pz] z by (simp add: Make_Some)
  have two: "Make (n @ ''.'' @ m @ ''.0'')
      = (\<lparr>Major = digits_value n, Minor = digits_value m, Patch = 0, Pre = [], Build = []\<rparr>, True)"
    using Parse_plain [OF assms(1,2) parse_number_zero pz] by (simp add: Make_Some)
  have two_mk: "Make (n @ ''.'' @ m @ ''.0-'' @ mk @ d)
      = (\<lparr>Major = digits_value n, Minor = digits_value m, Patch = 0, Pre = [PRStr (mk @ d)],
          Build = []\<rparr>, True)"
    using Parse_pre [OF assms(1,2) parse_number_zero pz pre_chars [OF assms(4,5)]
        NewPRVersion_marker [OF assms(4,5)]]
    by (simp add: Make_Some)
  have three: "Make (n @ ''.'' @ m @ ''.'' @ p)
      = (\<lparr>Major = digits_value n, Minor = digits_value m, Patch = digits_value p, Pre = [],
          Build = []\<rparr>, True)"
    using Parse_plain [OF assms(1,2) parse_number_section [OF assms(3)]
        digits_chars(4) [OF dp] digits_chars(5) [OF dp]]
    by (simp add: Make_Some)
  have three_mk: "Make (n @ ''.'' @ m @ ''.'' @ p @ ''-'' @ mk @ d)
      = (\<lparr>Major = digits_value n, Minor = digits_value m, Patch = digits_value p,
          Pre = [PRStr (mk @ d)], Build = []\<rparr>, True)"
    using Parse_pre [OF assms(1,2) parse_number_section [OF assms(3)]
        digits_chars(4) [OF dp] digits_chars(5) [OF dp] pre_chars [OF assms(4,5)]
        NewPRVersion_marker [OF assms(4,5)]]
    by (simp add: Make_Some)
  show ?thesis
    unfolding normalize_one [OF dn] normalize_two [OF dn dm]
      normalize_two_marker [OF dn dm assms(4,5)] normalize_three [OF dn dm dp]
      normalize_three_marker [OF dn dm dp assms(4,5)]
    using one two two_mk three three_mk by blast
qed

theorem C4_normalized_form_parses_witness:
  "numeric_section ''1'' \<and> numeric_section ''5'' \<and> numeric_section ''2'' \<and> marker ''rc''
   \<and> containsOnly ''3'' numbers
   \<and> normalizeVersion ''1'' = ''1.0.0''
   \<and> normalizeVersion ''1.5'' = ''1.5.0''
   \<and> normalizeVersion ''1.5rc3'' = ''1.5.0-rc3''
   \<and> Make (normalizeVersion ''1.5rc3'')
       = (\<lparr>Major = 1, Minor = 5, Patch = 0, Pre = [PRStr ''rc3''], Build = []\<rparr>, True)
   \<and> normalizeVersion ''1.5.2'' = ''1.5.2''
   \<and> normalizeVersion ''1.5.2rc3'' = ''1.5.2-rc3''
   \<and> Make (normalizeVersion ''1.5.2rc3'')
       = (\<lparr>Major = 1, Minor = 5, Patch = 2, Pre = [PRStr ''rc3''], Build = []\<rparr>, True)"
proof -
  have h: "numeric_section ''1''" "numeric_section ''5''" "numeric_section ''2''"
    "marker ''rc''" "containsOnly ''3'' numbers"
    by (simp_all add: numeric_section_def marker_def containsOnly_def numbers_def
        hasLeadingZeroes_def digits_value_def)
  have v: "digits_value ''1'' = 1" "digits_value ''5'' = 5" "digits_value ''2'' = 2"
    by (simp_all add: digits_value_def)
  show ?thesis
    using h C4_normalized_form_parses [OF h] v by (elim conjE) simp
qed

text \<open>
  Claim C4 as stated fails: the tag \<open>1beta1\<close> has one section and a marker, the one-section
  case appends \<open>.0.0\<close> whatever the tag holds, and \<open>1beta1.0.0\<close> does not parse; the tag
  \<open>1.02\<close> has two numeric sections, and \<open>1.02.0\<close> does not parse either (leading zero).
  \<open>getAllGoVersion\<close> drops the parser's error and sorts such a tag as version \<open>0.0.0\<close>.
\<close>

theorem C4_counterexample:
  "length (Split ''1beta1'' ''.'') = 1 \<and> Contains ''1beta1'' ''beta''
   \<and> normalizeVersion ''1beta1'' = ''1beta1.0.0''
   \<and> Make (normalizeVersion ''1beta1'') = (zero_Version, False)
   \<and> length (Split ''1.02'' ''.'') = 2 \<and> containsOnly ''02'' numbers
   \<and> normalizeVersion ''1.02'' = ''1.02.0''
   \<and> Make (normalizeVersion ''1.02'') = (zero_Version, False)"
  by code_simp


section \<open>Properties of the version listing\<close>

subsection \<open>Scanning concrete listings\<close>

lemma scan_lines_Nil: "scan_lines [] = []"
  by (simp add: scan_lines.simps)

lemma scan_lines_line:
  assumes "CHR 0x0A \<notin> set line" and "length line < MaxScanTokenSize"
  shows "scan_lines (line @ CHR 0x0A # rest) = dropCR line # scan_lines rest"
proof -
  have tw: "takeWhile (\<lambda>c. c \<noteq> CHR 0x0A) (line @ CHR 0x0A # rest) = line"
    using assms(1) by (induction line) auto
  have dw: "dropWhile (\<lambda>c. c \<noteq> CHR 0x0A) (line @ CHR 0x0A # rest) = CHR 0x0A # rest"
    using assms(1) by (induction line) auto
  show ?thesis
    using assms(2) by (subst scan_lines.simps) (simp add: tw dw Let_def)
qed

text \<open>A listing with the tags \<open>go1.2\<close> and \<open>go1.2.0\<close>, in this order.\<close>

definition listing_collision :: string where
  "listing_collision =
     ''0a refs/tags/go1.2'' @ CHR 0x0A # ''0b refs/tags/go1.2.0'' @ CHR 0x0A # []"

lemma scan_lines_collision:
  "scan_lines listing_collision = [''0a refs/tags/go1.2'', ''0b refs/tags/go1.2.0'']"
  unfolding listing_collision_def
  using scan_lines_line [of "''0a refs/tags/go1.2''" "''0b refs/tags/go1.2.0'' @ [CHR 0x0A]"]
    scan_lines_line [of "''0b refs/tags/go1.2.0''" "[]"]
  by (simp add: scan_lines_Nil MaxScanTokenSize_def dropCR_def)

text \<open>
  Claim C5 (each retained tag is returned exactly once, also when two tags have the same
  normalized form) fails on the code: the map \<open>tmp\<close> is keyed by the normalized version, so the
  second of two tags with one normalized form overwrites the first, and the returned slice holds
  the second tag twice. For the listing with \<open>go1.2\<close> and \<open>go1.2.0\<close> both lines are retained,
  both tags normalize to \<open>1.2.0\<close>, and the tag \<open>1.2\<close> is not returned.
\<close>

theorem C5_collision_drops_tag:
  "map tag_of_line (scan_lines listing_collision) = [Some ''1.2'', Some ''1.2.0'']
   \<and> normalizeVersion ''1.2'' = normalizeVersion ''1.2.0''
   \<and> versions_of listing_collision = [''1.2.0'', ''1.2.0'']"
  unfolding versions_of_def scan_listing_def scan_lines_collision by code_simp

text \<open>A listing with two tags that differ in their build metadata only.\<close>

definition listing_tie :: string where
  "listing_tie =
     ''0a refs/tags/go1.2.3+a'' @ CHR 0x0A # ''0b refs/tags/go1.2.3+b'' @ CHR 0x0A # []"

lemma scan_lines_tie:
  "scan_lines listing_tie = [''0a refs/tags/go1.2.3+a'', ''0b refs/tags/go1.2.3+b'']"
  unfolding listing_tie_def
  using scan_lines_line [of "''0a refs/tags/go1.2.3+a''" "''0b refs/tags/go1.2.3+b'' @ [CHR 0x0A]"]
    scan_lines_line [of "''0b refs/tags/go1.2.3+b''" "[]"]
  by (simp add: scan_lines_Nil MaxScanTokenSize_def dropCR_def)

text \<open>
  Claim C6 (tags whose normalized versions compare equal keep the order of the listing) fails on
  the code: the function handed to \<open>sort.SliceStable\<close> answers \<open>GE\<close>, so an element is
  swapped in front of every earlier element it is equal to. The tags \<open>1.2.3+a\<close> and
  \<open>1.2.3+b\<close> parse, compare equal (build metadata is not compared), and come out in the
  opposite order.
\<close>

theorem C6_ties_are_reversed:
  "map tag_of_line (scan_lines listing_tie) = [Some ''1.2.3+a'', Some ''1.2.3+b'']
   \<and> snd (Make (normalizeVersion ''1.2.3+a'')) \<and> snd (Make (normalizeVersion ''1.2.3+b''))
   \<and> Compare (fst (Make (normalizeVersion ''1.2.3+a''))) (fst (Make (normalizeVersion ''1.2.3+b''))) = 0
   \<and> versions_of listing_tie = [''1.2.3+b'', ''1.2.3+a'']"
  unfolding versions_of_def scan_listing_def scan_lines_tie by code_simp

text \<open>A listing with the tags \<open>go1.2.3\<close>, \<open>go1.10.0\<close> and \<open>go1.2.10\<close> and a branch.\<close>

definition listing_three :: string where
  "listing_three =
     ''0a refs/tags/go1.2.3'' @ CHR 0x0A # ''0b refs/tags/go1.10.0'' @ CHR 0x0A #
     ''0c refs/tags/go1.2.10'' @ CHR 0x0A # ''0d refs/heads/master'' @ CHR 0x0A # []"

lemma scan_lines_three:
  "scan_lines listing_three
     = [''0a refs/tags/go1.2.3'', ''0b refs/tags/go1.10.0'', ''0c refs/tags/go1.2.10'',
        ''0d refs/heads/master'']"
  unfolding listing_three_def
  using scan_lines_line [of "''0a refs/tags/go1.2.3''"
      "''0b refs/tags/go1.10.0'' @ CHR 0x0A # ''0c refs/tags/go1.2.10'' @ CHR 0x0A # ''0d refs/heads/master'' @ [CHR 0x0A]"]
    scan_lines_line [of "''0b refs/tags/go1.10.0''"
      "''0c refs/tags/go1.2.10'' @ CHR 0x0A # ''0d refs/heads/master'' @ [CHR 0x0A]"]
    scan_lines_line [of "''0c refs/tags/go1.2.10''" "''0d refs/heads/master'' @ [CHR 0x0A]"]
    scan_lines_line [of "''0d refs/heads/master''" "[]"]
  by (simp add: scan_lines_Nil MaxScanTokenSize_def dropCR_def)

lemma versions_of_three:
  "versions_of listing_three = [''1.10.0'', ''1.2.10'', ''1.2.3'']"
  unfolding versions_of_def scan_listing_def scan_lines_three by code_simp

lemma versions_of_tie: "versions_of listing_tie = [''1.2.3+b'', ''1.2.3+a'']"
  unfolding versions_of_def scan_listing_def scan_lines_tie by code_simp

section \<open>The order of the returned tags\<close>

text \<open>
  \<open>sort.SliceStable\<close> is handed the comparison \<open>v1.GE(v2)\<close>. For a comparison that is total
  and transitive, as \<open>GE\<close> is, the insertion sort of the blocks and the merges of
  \<open>stable_func\<close> give a slice in which every element stands in this relation to every later
  one, and the slice has the elements it had before.
\<close>


text \<open>The comparisons for which the order of the result is proved.\<close>

definition total_preorder :: "('a \<Rightarrow> 'a \<Rightarrow> bool) \<Rightarrow> bool" where
  "total_preorder r = ((\<forall>x y. r x y \<or> r y x) \<and> (\<forall>x y z. r x y \<longrightarrow> r y z \<longrightarrow> r x z))"

lemma total_preorderD:
  assumes "total_preorder r"
  shows "r x y \<or> r y x" and "r x x" and "r x y \<Longrightarrow> r y z \<Longrightarrow> r x z"
    and "\<not> r x y \<Longrightarrow> r y x"
  using assms unfolding total_preorder_def by blast+

subsection \<open>Insertion sort\<close>

lemma mset_insert_back: "mset (insert_back lessf x ys) = add_mset x (mset ys)"
  by (induction ys) auto

lemma set_insert_back: "set (insert_back lessf x ys) = insert x (set ys)"
  by (induction ys) auto

lemma sorted_insert_back:
  assumes "total_preorder lessf" and "sorted_wrt (\<lambda>a b. lessf b a) ys"
  shows "sorted_wrt (\<lambda>a b. lessf b a) (insert_back lessf x ys)"
  using assms(2)
proof (induction ys)
  case Nil
  then show ?case by simp
next
  case (Cons y ys)
  show ?case
  proof (cases "lessf x y")
    case True
    with Cons show ?thesis by (auto simp: set_insert_back)
  next
    case False
    then have yx: "lessf y x" using total_preorderD(4) [OF assms(1)] by blast
    have "lessf z x" if "z \<in> set ys" for z
      using that Cons.prems yx total_preorderD(3) [OF assms(1)] by auto
    with False yx Cons.prems show ?thesis by auto
  qed
qed

lemma foldl_insert_back:
  assumes "total_preorder lessf" and "sorted_wrt (\<lambda>a b. lessf b a) acc"
  shows "sorted_wrt (\<lambda>a b. lessf b a) (foldl (\<lambda>acc x. insert_back lessf x acc) acc xs)
    \<and> mset (foldl (\<lambda>acc x. insert_back lessf x acc) acc xs) = mset acc + mset xs"
  using assms(2)
proof (induction xs arbitrary: acc)
  case Nil
  then show ?case by simp
next
  case (Cons x xs)
  from Cons.IH [OF sorted_insert_back [OF assms(1) Cons.prems]]
  show ?case by (simp add: mset_insert_back)
qed

lemma sorted_wrt_rev_flip: "sorted_wrt r (rev xs) = sorted_wrt (\<lambda>a b. r b a) xs"
  by (induction xs) (auto simp: sorted_wrt_append)

lemma insertionSort_sorted:
  assumes "total_preorder lessf"
  shows "sorted_wrt lessf (insertionSort lessf xs)"
    and "mset (insertionSort lessf xs) = mset xs"
  using foldl_insert_back [OF assms, of "[]" xs]
  by (simp_all add: insertionSort_def sorted_wrt_rev_flip)

subsection \<open>Binary search\<close>

lemma bsearch_bounds: "i \<le> j \<Longrightarrow> i \<le> bsearch P i j \<and> bsearch P i j \<le> j"
proof (induction P i j rule: bsearch.induct)
  case (1 P i j)
  show ?case
  proof (cases "i < j")
    case True
    let ?h = "(i + j) div 2"
    from True have h: "i \<le> ?h" "?h < j" by simp_all
    show ?thesis
    proof (cases "P ?h")
      case p: True
      have b: "bsearch P i j = bsearch P i ?h"
        using True p by (subst bsearch.simps) simp
      from "1.IH"(1) [OF True p] h show ?thesis unfolding b by simp
    next
      case False
      have b: "bsearch P i j = bsearch P (?h + 1) j"
        using True False by (subst bsearch.simps) simp
      from "1.IH"(2) [OF True False] h show ?thesis unfolding b by simp
    qed
  next
    case False
    then have "bsearch P i j = i" by (subst bsearch.simps) simp
    with "1.prems" show ?thesis by simp
  qed
qed

lemma bsearch_spec:
  assumes "\<And>h h'. i \<le> h \<Longrightarrow> h \<le> h' \<Longrightarrow> h' < j \<Longrightarrow> P h \<Longrightarrow> P h'"
  shows "(\<forall>h. i \<le> h \<and> h < bsearch P i j \<longrightarrow> \<not> P h)
       \<and> (\<forall>h. bsearch P i j \<le> h \<and> h < j \<longrightarrow> P h)"
  using assms
proof (induction P i j rule: bsearch.induct)
  case (1 P i j)
  note mono = "1.prems"
  show ?case
  proof (cases "i < j")
    case True
    let ?h = "(i + j) div 2"
    from True have h: "i \<le> ?h" "?h < j" by simp_all
    show ?thesis
    proof (cases "P ?h")
      case p: True
      have b: "bsearch P i j = bsearch P i ?h"
        using True p by (subst bsearch.simps) simp
      have m: "P a'" if "i \<le> a" "a \<le> a'" "a' < ?h" "P a" for a a'
      proof (rule mono [of a a'])
        show "a' < j" using that(3) h(2) by simp
      qed (use that in simp_all)
      have "(\<forall>a. i \<le> a \<and> a < bsearch P i ?h \<longrightarrow> \<not> P a)
          \<and> (\<forall>a. bsearch P i ?h \<le> a \<and> a < ?h \<longrightarrow> P a)"
      proof (rule "1.IH"(1) [OF True p])
        fix a a' assume "i \<le> a" "a \<le> a'" "a' < ?h" "P a"
        then show "P a'" by (rule m)
      qed
      then have ih1: "\<And>a. i \<le> a \<Longrightarrow> a < bsearch P i ?h \<Longrightarrow> \<not> P a"
        and ih2: "\<And>a. bsearch P i ?h \<le> a \<Longrightarrow> a < ?h \<Longrightarrow> P a" by blast+
      have up: "P a" if "?h \<le> a" "a < j" for a
        by (rule mono [of ?h a]) (use h that p in simp_all)
      have "P a" if "bsearch P i ?h \<le> a" "a < j" for a
      proof (cases "a < ?h")
        case True
        with that ih2 show ?thesis by blast
      next
        case False
        with that up show ?thesis by simp
      qed
      with ih1 show ?thesis unfolding b by blast
    next
      case False
      have b: "bsearch P i j = bsearch P (?h + 1) j"
        using True False by (subst bsearch.simps) simp
      have m: "P a'" if "?h + 1 \<le> a" "a \<le> a'" "a' < j" "P a" for a a'
      proof (rule mono [of a a'])
        show "i \<le> a" using that(1) h(1) by simp
      qed (use that in simp_all)
      have "(\<forall>a. ?h + 1 \<le> a \<and> a < bsearch P (?h + 1) j \<longrightarrow> \<not> P a)
          \<and> (\<forall>a. bsearch P (?h + 1) j \<le> a \<and> a < j \<longrightarrow> P a)"
      proof (rule "1.IH"(2) [OF True False])
        fix a a' assume "?h + 1 \<le> a" "a \<le> a'" "a' < j" "P a"
        then show "P a'" by (rule m)
      qed
      then have ih1: "\<And>a. ?h + 1 \<le> a \<Longrightarrow> a < bsearch P (?h + 1) j \<Longrightarrow> \<not> P a"
        and ih2: "\<And>a. bsearch P (?h + 1) j \<le> a \<Longrightarrow> a < j \<Longrightarrow> P a" by blast+
      have low: "\<not> P a" if "i \<le> a" "a \<le> ?h" for a
      proof
        assume "P a"
        have "P ?h" by (rule mono [of a ?h]) (use that h \<open>P a\<close> in simp_all)
        with False show False by simp
      qed
      have "\<not> P a" if "i \<le> a" "a < bsearch P (?h + 1) j" for a
      proof (cases "a \<le> ?h")
        case True
        with that low show ?thesis by blast
      next
        case False
        then have "?h + 1 \<le> a" by simp
        with that ih1 show ?thesis by blast
      qed
      with ih2 show ?thesis unfolding b by blast
    qed
  next
    case False
    then have "bsearch P i j = i" by (subst bsearch.simps) simp
    with False show ?thesis by auto
  qed
qed


subsection \<open>Merging\<close>

lemma in_set_sliceD:
  assumes "y \<in> set (drop a (take e xs))" and "e \<le> length xs"
  obtains j where "a \<le> j" "j < e" "y = xs ! j"
proof -
  from assms(1) obtain i where i: "i < length (drop a (take e xs))" "y = drop a (take e xs) ! i"
    by (auto simp: in_set_conv_nth)
  with assms(2) have l: "a + i < e" by simp
  with i(2) assms(2) have "y = xs ! (a + i)" by simp
  with l that [of "a + i"] show ?thesis by simp
qed

lemma sorted_range:
  assumes tp: "total_preorder lessf"
    and s: "sorted_wrt lessf (drop a (take e xs))" and e: "e \<le> length xs"
    and ij: "a \<le> i" "i \<le> j" "j < e"
  shows "lessf (xs ! i) (xs ! j)"
proof (cases "i = j")
  case True
  then show ?thesis using total_preorderD(2) [OF tp] by simp
next
  case False
  with ij e have "i - a < j - a" "j - a < length (drop a (take e xs))" by simp_all
  from sorted_wrt_nth_less [OF s this]
  show ?thesis using ij e by simp
qed

lemma sorted_insert_at:
  assumes tp: "total_preorder lessf" and "sorted_wrt lessf t"
    and "\<forall>y\<in>set (take k t). lessf y x" and "\<forall>y\<in>set (drop k t). lessf x y"
  shows "sorted_wrt lessf (take k t @ [x] @ drop k t)"
proof -
  have "sorted_wrt lessf (take k t @ drop k t)" using assms(2) by simp
  then have "sorted_wrt lessf (take k t)" "sorted_wrt lessf (drop k t)"
    "\<forall>a\<in>set (take k t). \<forall>b\<in>set (drop k t). lessf a b"
    by (simp_all add: sorted_wrt_append del: append_take_drop_id)
  with assms(3,4) show ?thesis by (auto simp: sorted_wrt_append)
qed

lemma symMerge_left_one:
  assumes tp: "total_preorder lessf" and len: "1 < length xs"
    and s: "sorted_wrt lessf (drop 1 xs)"
  shows "sorted_wrt lessf (symMerge lessf xs 1) \<and> mset (symMerge lessf xs 1) = mset xs"
proof -
  define i where "i = bsearch (\<lambda>h. \<not> lessf (xs ! h) (xs ! 0)) 1 (length xs)"
  have sm: "symMerge lessf xs 1 = take (i - 1) (tl xs) @ [xs ! 0] @ drop i xs"
    by (subst symMerge.simps) (simp add: i_def Let_def)
  have b: "1 \<le> i" "i \<le> length xs"
    using bsearch_bounds [of 1 "length xs"] len by (simp_all add: i_def)
  have s': "sorted_wrt lessf (drop 1 (take (length xs) xs))" using s by simp
  have spec: "(\<forall>h. 1 \<le> h \<and> h < i \<longrightarrow> \<not> \<not> lessf (xs ! h) (xs ! 0))
       \<and> (\<forall>h. i \<le> h \<and> h < length xs \<longrightarrow> \<not> lessf (xs ! h) (xs ! 0))"
    unfolding i_def
  proof (rule bsearch_spec)
    fix h h' assume h: "1 \<le> h" "h \<le> h'" "h' < length xs" and p: "\<not> lessf (xs ! h) (xs ! 0)"
    have "lessf (xs ! h) (xs ! h')" by (rule sorted_range [OF tp s' _ h]) simp
    with p show "\<not> lessf (xs ! h') (xs ! 0)" using total_preorderD(3) [OF tp] by blast
  qed
  have t1: "take (i - 1) (tl xs) = drop 1 (take i xs)" by (simp add: drop_take drop_Suc)
  have t2: "drop i xs = drop (i - 1) (tl xs)" using b by (simp add: drop_Suc [symmetric])
  have before: "\<forall>y\<in>set (take (i - 1) (tl xs)). lessf y (xs ! 0)"
  proof
    fix y assume "y \<in> set (take (i - 1) (tl xs))"
    then have "y \<in> set (drop 1 (take i xs))" by (simp only: t1)
    then obtain j where "1 \<le> j" "j < i" "y = xs ! j" using b(2) by (rule in_set_sliceD)
    with spec show "lessf y (xs ! 0)" by blast
  qed
  have after: "\<forall>y\<in>set (drop (i - 1) (tl xs)). lessf (xs ! 0) y"
  proof
    fix y assume "y \<in> set (drop (i - 1) (tl xs))"
    then have "y \<in> set (drop i (take (length xs) xs))" by (simp add: t2)
    then obtain j where "i \<le> j" "j < length xs" "y = xs ! j" by (rule in_set_sliceD) simp
    with spec have "\<not> lessf y (xs ! 0)" by blast
    then show "lessf (xs ! 0) y" using total_preorderD(4) [OF tp] by blast
  qed
  have "sorted_wrt lessf (tl xs)" using s by (simp add: drop_Suc)
  from sorted_insert_at [OF tp this before after]
  have "sorted_wrt lessf (symMerge lessf xs 1)" unfolding sm t2 .
  moreover have "mset (symMerge lessf xs 1) = mset xs"
  proof -
    have "mset (take (i - 1) (tl xs)) + mset (drop (i - 1) (tl xs)) = mset (tl xs)"
      by (simp only: mset_append [symmetric] append_take_drop_id)
    moreover have "xs = xs ! 0 # tl xs" using len by (cases xs) simp_all
    then have "mset xs = add_mset (xs ! 0) (mset (tl xs))" by (metis mset.simps(2))
    ultimately show ?thesis unfolding sm t2 by simp
  qed
  ultimately show ?thesis by (rule conjI)
qed

lemma symMerge_right_one:
  assumes tp: "total_preorder lessf" and len: "length xs = Suc m" and m: "m \<noteq> 1"
    and s: "sorted_wrt lessf (take m xs)"
  shows "sorted_wrt lessf (symMerge lessf xs m) \<and> mset (symMerge lessf xs m) = mset xs"
proof -
  define i where "i = bsearch (\<lambda>h. lessf (xs ! m) (xs ! h)) 0 m"
  have sm: "symMerge lessf xs m = take i xs @ [xs ! m] @ drop i (take m xs)"
    using m len by (subst symMerge.simps) (simp add: i_def Let_def)
  have b: "i \<le> m" using bsearch_bounds [of 0 m] by (simp add: i_def)
  have s': "sorted_wrt lessf (drop 0 (take m xs))" using s by simp
  have spec: "(\<forall>h. 0 \<le> h \<and> h < i \<longrightarrow> \<not> lessf (xs ! m) (xs ! h))
       \<and> (\<forall>h. i \<le> h \<and> h < m \<longrightarrow> lessf (xs ! m) (xs ! h))"
    unfolding i_def
  proof (rule bsearch_spec)
    fix h h' assume h: "0 \<le> h" "h \<le> h'" "h' < m" and p: "lessf (xs ! m) (xs ! h)"
    have "lessf (xs ! h) (xs ! h')" by (rule sorted_range [OF tp s' _ h]) (simp add: len)
    with p show "lessf (xs ! m) (xs ! h')" using total_preorderD(3) [OF tp] by blast
  qed
  have t1: "take i xs = take i (take m xs)" using b by (simp add: min_def)
  have before: "\<forall>y\<in>set (take i (take m xs)). lessf y (xs ! m)"
  proof
    fix y assume "y \<in> set (take i (take m xs))"
    then have "y \<in> set (drop 0 (take i xs))" by (simp add: t1)
    then obtain j where "0 \<le> j" "j < i" "y = xs ! j"
      by (rule in_set_sliceD) (use b len in simp)
    with spec have "\<not> lessf (xs ! m) y" by blast
    then show "lessf y (xs ! m)" using total_preorderD(4) [OF tp] by blast
  qed
  have after: "\<forall>y\<in>set (drop i (take m xs)). lessf (xs ! m) y"
  proof
    fix y assume "y \<in> set (drop i (take m xs))"
    then obtain j where "i \<le> j" "j < m" "y = xs ! j"
      by (rule in_set_sliceD) (use len in simp)
    with spec show "lessf (xs ! m) y" by blast
  qed
  from sorted_insert_at [OF tp s before after]
  have "sorted_wrt lessf (symMerge lessf xs m)" by (simp only: sm t1)
  moreover have "mset (symMerge lessf xs m) = mset xs"
  proof -
    have "mset (take i (take m xs)) + mset (drop i (take m xs)) = mset (take m xs)"
      by (simp only: mset_append [symmetric] append_take_drop_id)
    moreover have "xs = take m xs @ [xs ! m]"
      using len by (metis lessI take_Suc_conv_app_nth take_all order_refl)
    then have "mset xs = add_mset (xs ! m) (mset (take m xs))"
      by (metis mset_append mset.simps add_mset_add_single union_mset_add_mset_right add.right_neutral)
    ultimately show ?thesis by (simp add: sm t1)
  qed
  ultimately show ?thesis by simp
qed


lemma take_drop_take: "a \<le> m \<Longrightarrow> take a xs @ drop a (take m xs) = take m xs"
proof -
  assume "a \<le> m"
  then have "take a xs = take a (take m xs)" by (simp add: min_def)
  then show ?thesis by (simp only: append_take_drop_id)
qed

lemma drop_take_drop: "m \<le> e \<Longrightarrow> drop m (take e xs) @ drop e xs = drop m xs"
proof -
  assume "m \<le> e"
  then have "drop e xs = drop (e - m) (drop m xs)" by simp
  moreover have "drop m (take e xs) = take (e - m) (drop m xs)" by (simp add: drop_take)
  ultimately show ?thesis by (simp only: append_take_drop_id)
qed

lemma rotate_blocks_id:
  assumes "a \<le> m" "m \<le> e" "a = m \<or> m = e"
  shows "rotate_blocks xs a m e = xs"
  using assms(3)
proof
  assume "a = m"
  then have "rotate_blocks xs a m e = take m xs @ drop m (take e xs) @ drop e xs"
    by (simp add: rotate_blocks_def)
  also have "\<dots> = xs" using assms(2) by (simp only: drop_take_drop append_take_drop_id)
  finally show ?thesis .
next
  assume "m = e"
  then have "rotate_blocks xs a m e = (take a xs @ drop a (take m xs)) @ drop m xs"
    by (simp add: rotate_blocks_def)
  also have "\<dots> = xs" using assms(1) by (simp only: take_drop_take append_take_drop_id)
  finally show ?thesis .
qed

lemma symMerge_cut:
  assumes tp: "total_preorder lessf" and m: "0 < m" "m < length xs"
    and sl: "sorted_wrt lessf (take m xs)" and sr: "sorted_wrt lessf (drop m xs)"
    and mid: "mid = length xs div 2" and n: "n = mid + m"
    and start: "start = bsearch (\<lambda>c. lessf (xs ! (n - 1 - c)) (xs ! c))
                  (if m > mid then n - length xs else 0) (if m > mid then mid else m)"
    and e: "e = n - start"
  shows "start \<le> m \<and> start \<le> mid \<and> m \<le> e \<and> e \<le> length xs \<and> start + (e - m) = mid
          \<and> e - mid = m - start"
    and "\<forall>a\<in>set (take start xs). \<forall>c\<in>set (drop e xs). lessf a c"
    and "\<forall>a\<in>set (drop m (take e xs)). \<forall>c\<in>set (drop start (take m xs)). lessf a c"
proof -
  define lo where "lo = (if m > mid then n - length xs else 0)"
  define hi where "hi = (if m > mid then mid else m)"
  have md: "2 * mid \<le> length xs" "length xs \<le> 2 * mid + 1" unfolding mid by simp_all
  have lohi: "lo \<le> hi" using md m n by (auto simp: lo_def hi_def)
  have st: "start = bsearch (\<lambda>c. lessf (xs ! (n - 1 - c)) (xs ! c)) lo hi"
    by (simp only: start lo_def hi_def)
  from bsearch_bounds [OF lohi] have sb: "lo \<le> start" "start \<le> hi" by (simp_all add: st)
  have hib: "hi \<le> m" "hi \<le> mid" by (simp_all add: hi_def)
  have lob: "n - length xs \<le> lo" using md m n by (auto simp: lo_def)
  show bounds: "start \<le> m \<and> start \<le> mid \<and> m \<le> e \<and> e \<le> length xs \<and> start + (e - m) = mid
          \<and> e - mid = m - start"
    using sb hib lob md m n e by auto
  have sl': "sorted_wrt lessf (drop 0 (take m xs))" using sl by simp
  have sr': "sorted_wrt lessf (drop m (take (length xs) xs))" using sr by simp
  have left: "lessf (xs ! i) (xs ! j)" if "i \<le> j" "j < m" for i j
    by (rule sorted_range [OF tp sl']) (use that m in auto)
  have right: "lessf (xs ! i) (xs ! j)" if "m \<le> i" "i \<le> j" "j < length xs" for i j
    by (rule sorted_range [OF tp sr']) (use that in auto)
  note trans = total_preorderD(3) [OF tp]
  have spec: "(\<forall>c. lo \<le> c \<and> c < start \<longrightarrow> \<not> lessf (xs ! (n - 1 - c)) (xs ! c))
       \<and> (\<forall>c. start \<le> c \<and> c < hi \<longrightarrow> lessf (xs ! (n - 1 - c)) (xs ! c))"
    unfolding st
  proof (rule bsearch_spec)
    fix c c' assume c: "lo \<le> c" "c \<le> c'" "c' < hi" and p: "lessf (xs ! (n - 1 - c)) (xs ! c)"
    have 1: "lessf (xs ! c) (xs ! c')" by (rule left) (use c hib in auto)
    have 2: "lessf (xs ! (n - 1 - c')) (xs ! (n - 1 - c))"
      by (rule right) (use c hib lob md m n in auto)
    from trans [OF trans [OF 2 p] 1] show "lessf (xs ! (n - 1 - c')) (xs ! c')" .
  qed
  show "\<forall>a\<in>set (take start xs). \<forall>c\<in>set (drop e xs). lessf a c"
  proof (intro ballI)
    fix a c assume "a \<in> set (take start xs)" "c \<in> set (drop e xs)"
    then have a: "a \<in> set (drop 0 (take start xs))"
      and c: "c \<in> set (drop e (take (length xs) xs))" by simp_all
    from a obtain h where h: "h < start" "a = xs ! h"
      by (rule in_set_sliceD) (use bounds m in auto)
    from c obtain k where k: "e \<le> k" "k < length xs" "c = xs ! k"
      by (rule in_set_sliceD) simp_all
    have "lo < start" using h k sb lob e n by (auto simp: lo_def split: if_splits)
    then have "lo \<le> start - 1 \<and> start - 1 < start" by simp
    with spec have "\<not> lessf (xs ! (n - 1 - (start - 1))) (xs ! (start - 1))" by blast
    moreover have "n - 1 - (start - 1) = e" using h bounds e n by simp
    ultimately have 2: "lessf (xs ! (start - 1)) (xs ! e)"
      using total_preorderD(4) [OF tp] by simp
    have 1: "lessf (xs ! h) (xs ! (start - 1))" by (rule left) (use h bounds in auto)
    have 3: "lessf (xs ! e) (xs ! k)" by (rule right) (use k bounds in auto)
    from trans [OF trans [OF 1 2] 3] show "lessf a c" by (simp add: h k)
  qed
  show "\<forall>a\<in>set (drop m (take e xs)). \<forall>c\<in>set (drop start (take m xs)). lessf a c"
  proof (intro ballI)
    fix a c assume a: "a \<in> set (drop m (take e xs))" and c: "c \<in> set (drop start (take m xs))"
    from a obtain j where j: "m \<le> j" "j < e" "a = xs ! j"
      by (rule in_set_sliceD) (use bounds in auto)
    from c obtain h where h: "start \<le> h" "h < m" "c = xs ! h"
      by (rule in_set_sliceD) (use m in auto)
    have "start < hi" using h j e n by (auto simp: hi_def split: if_splits)
    then have "start \<le> start \<and> start < hi" by simp
    with spec have "lessf (xs ! (n - 1 - start)) (xs ! start)" by blast
    moreover have "n - 1 - start = e - 1" using e by simp
    ultimately have 2: "lessf (xs ! (e - 1)) (xs ! start)" by simp
    have 1: "lessf (xs ! j) (xs ! (e - 1))" by (rule right) (use j bounds in auto)
    have 3: "lessf (xs ! start) (xs ! h)" by (rule left) (use h in auto)
    from trans [OF trans [OF 1 2] 3] show "lessf a c" by (simp add: h j)
  qed
qed


lemma sorted_two_parts:
  assumes "sorted_wrt lessf (A @ B)"
  shows "sorted_wrt lessf A" "sorted_wrt lessf B" "\<forall>a\<in>set A. \<forall>b\<in>set B. lessf a b"
  using assms by (simp_all add: sorted_wrt_append)

lemma symMerge_sorted:
  assumes "total_preorder lessf" and "0 < m" and "m < length xs"
    and "sorted_wrt lessf (take m xs)" and "sorted_wrt lessf (drop m xs)"
  shows "sorted_wrt lessf (symMerge lessf xs m) \<and> mset (symMerge lessf xs m) = mset xs"
  using assms
proof (induction lessf xs m rule: symMerge.induct)
  case (1 lessf xs m)
  note tp = "1.prems"(1) and m = "1.prems"(2,3) and sl = "1.prems"(4) and sr = "1.prems"(5)
  show ?case
  proof (cases "m = 1")
    case True
    with symMerge_left_one [OF tp _ sr [unfolded True]] m show ?thesis by simp
  next
    case m1: False
    show ?thesis
    proof (cases "length xs - m = 1")
      case True
      then have "length xs = Suc m" using m by simp
      from symMerge_right_one [OF tp this m1 sl] show ?thesis .
    next
      case b1: False
      define mid where "mid = length xs div 2"
      define n where "n = mid + m"
      define start where "start = bsearch (\<lambda>c. lessf (xs ! (n - 1 - c)) (xs ! c))
                  (if m > mid then n - length xs else 0) (if m > mid then mid else m)"
      define e where "e = n - start"
      define ys where "ys = (if start < m \<and> m < e then rotate_blocks xs start m e else xs)"
      define A where "A = (if 0 < start \<and> start < mid then symMerge lessf (take mid ys) start
             else take mid ys)"
      define B where "B = (if mid < e \<and> e < length xs then symMerge lessf (drop mid ys) (e - mid)
             else drop mid ys)"
      have sm: "symMerge lessf xs m = A @ B"
        using m1 b1
        by (subst symMerge.simps)
          (simp only: Let_def A_def B_def ys_def e_def start_def n_def mid_def if_False)
      note cut = symMerge_cut [OF tp m sl sr mid_def n_def start_def e_def]
      from cut(1) have bounds: "start \<le> m" "start \<le> mid" "m \<le> e" "e \<le> length xs"
        "start + (e - m) = mid" "e - mid = m - start" by simp_all
      define A1 where "A1 = take start xs"
      define A2 where "A2 = drop m (take e xs)"
      define B1 where "B1 = drop start (take m xs)"
      define B2 where "B2 = drop e xs"
      have len: "length A1 = start" "length A2 = e - m" "length B1 = m - start"
        using bounds m by (simp_all add: A1_def A2_def B1_def)
      have left: "take m xs = A1 @ B1"
        using take_drop_take [OF bounds(1), of xs] by (simp add: A1_def B1_def)
      have right: "drop m xs = A2 @ B2"
        using drop_take_drop [OF bounds(3), of xs] by (simp add: A2_def B2_def)
      have ys: "ys = (A1 @ A2) @ (B1 @ B2)"
      proof (cases "start < m \<and> m < e")
        case True
        then show ?thesis by (simp add: ys_def rotate_blocks_def A1_def A2_def B1_def B2_def)
      next
        case False
        with bounds have "start = m \<or> m = e" by auto
        from rotate_blocks_id [OF bounds(1) bounds(3) this, of xs] False
        show ?thesis by (simp add: ys_def rotate_blocks_def A1_def A2_def B1_def B2_def)
      qed
      have lA: "length (A1 @ A2) = mid" using len bounds by simp
      have tk: "take mid ys = A1 @ A2" unfolding ys using lA by simp
      have dr: "drop mid ys = B1 @ B2" unfolding ys using lA by simp
      have sA1: "sorted_wrt lessf A1" and sB1: "sorted_wrt lessf B1"
        and c11: "\<forall>a\<in>set A1. \<forall>b\<in>set B1. lessf a b"
        using sorted_two_parts [OF sl [unfolded left]] by blast+
      have sA2: "sorted_wrt lessf A2" and sB2: "sorted_wrt lessf B2"
        and c22: "\<forall>a\<in>set A2. \<forall>b\<in>set B2. lessf a b"
        using sorted_two_parts [OF sr [unfolded right]] by blast+
      have c12: "\<forall>a\<in>set A1. \<forall>b\<in>set B2. lessf a b"
        using cut(2) by (simp add: A1_def B2_def)
      have c21: "\<forall>a\<in>set A2. \<forall>b\<in>set B1. lessf a b"
        using cut(3) by (simp add: A2_def B1_def)
      have rA: "sorted_wrt lessf A \<and> mset A = mset (A1 @ A2)"
      proof (cases "0 < start \<and> start < mid")
        case True
        have "sorted_wrt lessf (symMerge lessf (take mid ys) start)
            \<and> mset (symMerge lessf (take mid ys) start) = mset (take mid ys)"
        proof (rule "1.IH"(1) [OF m1 b1 mid_def n_def start_def e_def ys_def True tp])
          show "0 < start" using True by simp
          show "start < length (take mid ys)" using True lA by (simp add: tk)
          show "sorted_wrt lessf (take start (take mid ys))" using sA1 len by (simp add: tk)
          show "sorted_wrt lessf (drop start (take mid ys))" using sA2 len by (simp add: tk)
        qed
        with True show ?thesis by (simp add: A_def tk)
      next
        case False
        with bounds len have "A1 = [] \<or> A2 = []" by auto
        with sA1 sA2 have "sorted_wrt lessf (A1 @ A2)" by auto
        with False show ?thesis by (auto simp: A_def tk)
      qed
      have rB: "sorted_wrt lessf B \<and> mset B = mset (B1 @ B2)"
      proof (cases "mid < e \<and> e < length xs")
        case True
        have em: "e - mid = length B1" using bounds len by simp
        have "sorted_wrt lessf (symMerge lessf (drop mid ys) (e - mid))
            \<and> mset (symMerge lessf (drop mid ys) (e - mid)) = mset (drop mid ys)"
        proof (rule "1.IH"(2) [OF m1 b1 mid_def n_def start_def e_def ys_def True tp])
          show "0 < e - mid" using True by simp
          have "length (drop mid ys) = length B1 + (length xs - e)" by (simp add: dr B2_def)
          with True em show "e - mid < length (drop mid ys)" by auto
          show "sorted_wrt lessf (take (e - mid) (drop mid ys))" using sB1 by (simp add: dr em)
          show "sorted_wrt lessf (drop (e - mid) (drop mid ys))" using sB2 by (simp add: dr em)
        qed
        with True show ?thesis by (simp add: B_def dr)
      next
        case False
        with bounds len have "B1 = [] \<or> B2 = []" by (auto simp: B2_def)
        with sB1 sB2 have "sorted_wrt lessf (B1 @ B2)" by auto
        with False show ?thesis by (auto simp: B_def dr)
      qed
      from rA have setA: "set A = set A1 \<union> set A2" by (metis mset_eq_setD set_append)
      from rB have setB: "set B = set B1 \<union> set B2" by (metis mset_eq_setD set_append)
      have "sorted_wrt lessf (A @ B)"
        using rA rB c11 c12 c21 c22 by (auto simp: sorted_wrt_append setA setB)
      moreover have "mset (A @ B) = mset xs"
      proof -
        have "mset xs = mset (take m xs) + mset (drop m xs)"
          by (simp only: mset_append [symmetric] append_take_drop_id)
        then show ?thesis using rA rB by (simp add: left right)
      qed
      ultimately show ?thesis by (simp add: sm)
    qed
  qed
qed


subsection \<open>Blocks\<close>

text \<open>Every block of \<open>c\<close> elements, counted from the front, is in order.\<close>

definition blocks_sorted :: "('a \<Rightarrow> 'a \<Rightarrow> bool) \<Rightarrow> nat \<Rightarrow> 'a list \<Rightarrow> bool" where
  "blocks_sorted lessf c xs = (\<forall>k. sorted_wrt lessf (take c (drop (k * c) xs)))"

lemma sorted_slice: "sorted_wrt lessf xs \<Longrightarrow> sorted_wrt lessf (take c (drop d xs))"
proof -
  assume "sorted_wrt lessf xs"
  then have "sorted_wrt lessf (take d xs @ drop d xs)" by simp
  then have "sorted_wrt lessf (drop d xs)" by (simp add: sorted_wrt_append del: append_take_drop_id)
  then have "sorted_wrt lessf (take c (drop d xs) @ drop c (drop d xs))"
    by (simp only: append_take_drop_id)
  then show ?thesis by (simp add: sorted_wrt_append del: append_take_drop_id)
qed

lemma blocks_sorted_whole: "sorted_wrt lessf xs \<Longrightarrow> blocks_sorted lessf c xs"
  by (simp add: blocks_sorted_def sorted_slice)

lemma blocks_sorted_short: "blocks_sorted lessf c xs \<Longrightarrow> length xs \<le> c \<Longrightarrow> sorted_wrt lessf xs"
  unfolding blocks_sorted_def by (drule spec [of _ 0]) simp

lemma blocks_sorted_append:
  assumes "length A = c" and "sorted_wrt lessf A" and "blocks_sorted lessf c R"
  shows "blocks_sorted lessf c (A @ R)"
  unfolding blocks_sorted_def
proof
  fix k
  show "sorted_wrt lessf (take c (drop (k * c) (A @ R)))"
  proof (cases k)
    case 0
    with assms(1,2) show ?thesis by simp
  next
    case (Suc j)
    with assms(1) have "drop (k * c) (A @ R) = drop (j * c) R" by simp
    with assms(3) show ?thesis by (simp add: blocks_sorted_def)
  qed
qed

lemma blocks_sorted_drop:
  "blocks_sorted lessf c xs \<Longrightarrow> blocks_sorted lessf c (drop (j * c) xs)"
  unfolding blocks_sorted_def
proof
  fix k assume a: "\<forall>k. sorted_wrt lessf (take c (drop (k * c) xs))"
  have "drop (k * c) (drop (j * c) xs) = drop ((k + j) * c) xs" by (simp add: add_mult_distrib)
  with a show "sorted_wrt lessf (take c (drop (k * c) (drop (j * c) xs)))" by simp
qed

lemma sort_blocks_sorted:
  assumes "total_preorder lessf" and "0 < c"
  shows "blocks_sorted lessf c (sort_blocks lessf c xs) \<and> mset (sort_blocks lessf c xs) = mset xs"
  using assms
proof (induction lessf c xs rule: sort_blocks.induct)
  case (1 lessf c xs)
  note tp = "1.prems"(1)
  show ?case
  proof (cases "0 < c \<and> c \<le> length xs")
    case True
    have sb: "sort_blocks lessf c xs
        = insertionSort lessf (take c xs) @ sort_blocks lessf c (drop c xs)"
      using True by (subst sort_blocks.simps) auto
    from "1.IH" [OF True tp] True
    have ih: "blocks_sorted lessf c (sort_blocks lessf c (drop c xs))"
      "mset (sort_blocks lessf c (drop c xs)) = mset (drop c xs)" by simp_all
    have "length (insertionSort lessf (take c xs)) = length (take c xs)"
      using insertionSort_sorted(2) [OF tp] by (rule mset_eq_length)
    with True have l: "length (insertionSort lessf (take c xs)) = c" by simp
    have "mset xs = mset (take c xs) + mset (drop c xs)"
      by (simp only: mset_append [symmetric] append_take_drop_id)
    with ih(2) have "mset (sort_blocks lessf c xs) = mset xs"
      by (simp add: sb insertionSort_sorted(2) [OF tp])
    with blocks_sorted_append [OF l insertionSort_sorted(1) [OF tp] ih(1)]
    show ?thesis by (simp add: sb)
  next
    case False
    then have "sort_blocks lessf c xs = insertionSort lessf xs"
      by (subst sort_blocks.simps) auto
    with insertionSort_sorted [OF tp, of xs] show ?thesis
      by (simp add: blocks_sorted_whole)
  qed
qed

lemma merge_pass_sorted:
  assumes "total_preorder lessf" and "0 < c" and "blocks_sorted lessf c xs"
  shows "blocks_sorted lessf (2 * c) (merge_pass lessf c xs)
       \<and> mset (merge_pass lessf c xs) = mset xs"
  using assms
proof (induction lessf c xs rule: merge_pass.induct)
  case (1 lessf c xs)
  note tp = "1.prems"(1) and c = "1.prems"(2) and bs = "1.prems"(3)
  have b0: "sorted_wrt lessf (take c xs)"
    using bs unfolding blocks_sorted_def by (drule_tac spec [of _ 0]) simp
  have b1: "sorted_wrt lessf (take c (drop c xs))"
    using bs unfolding blocks_sorted_def by (drule_tac spec [of _ 1]) simp
  show ?case
  proof (cases "0 < c \<and> 2 * c \<le> length xs")
    case True
    let ?A = "symMerge lessf (take (2 * c) xs) c"
    have mp: "merge_pass lessf c xs = ?A @ merge_pass lessf c (drop (2 * c) xs)"
      using True by (subst merge_pass.simps) auto
    have "blocks_sorted lessf c (drop (2 * c) xs)" using blocks_sorted_drop [OF bs, of 2] by simp
    from "1.IH" [OF True tp c this]
    have ih: "blocks_sorted lessf (2 * c) (merge_pass lessf c (drop (2 * c) xs))"
      "mset (merge_pass lessf c (drop (2 * c) xs)) = mset (drop (2 * c) xs)" by simp_all
    have "sorted_wrt lessf ?A \<and> mset ?A = mset (take (2 * c) xs)"
    proof (rule symMerge_sorted [OF tp c])
      show "c < length (take (2 * c) xs)" using True by simp
      show "sorted_wrt lessf (take c (take (2 * c) xs))" using b0 by (simp add: min_def)
      have "drop c (take (2 * c) xs) = take c (drop c xs)" by (simp add: drop_take)
      with b1 show "sorted_wrt lessf (drop c (take (2 * c) xs))" by simp
    qed
    then have sA: "sorted_wrt lessf ?A" and mA: "mset ?A = mset (take (2 * c) xs)" by simp_all
    from mA have "length ?A = length (take (2 * c) xs)" by (rule mset_eq_length)
    with True have l: "length ?A = 2 * c" by simp
    have "mset xs = mset (take (2 * c) xs) + mset (drop (2 * c) xs)"
      by (simp only: mset_append [symmetric] append_take_drop_id)
    with ih(2) mA have "mset (merge_pass lessf c xs) = mset xs" by (simp add: mp)
    with blocks_sorted_append [OF l sA ih(1)] show ?thesis by (simp add: mp)
  next
    case False
    show ?thesis
    proof (cases "c < length xs")
      case True
      with False c have mp: "merge_pass lessf c xs = symMerge lessf xs c"
        by (subst merge_pass.simps) auto
      from False True c have "take c (drop c xs) = drop c xs" by simp
      with b1 have "sorted_wrt lessf (drop c xs)" by simp
      from symMerge_sorted [OF tp c True b0 this] show ?thesis
        by (simp add: mp blocks_sorted_whole)
    next
      case short: False
      with False have mp: "merge_pass lessf c xs = xs" by (subst merge_pass.simps) auto
      from short b0 have "sorted_wrt lessf xs" by simp
      then show ?thesis by (simp add: mp blocks_sorted_whole)
    qed
  qed
qed

lemma merge_loop_sorted:
  assumes "total_preorder lessf" and "0 < c" and "blocks_sorted lessf c xs" and "length xs = n"
  shows "sorted_wrt lessf (merge_loop lessf n c xs) \<and> mset (merge_loop lessf n c xs) = mset xs"
  using assms
proof (induction lessf n c xs rule: merge_loop.induct)
  case (1 lessf n c xs)
  note tp = "1.prems"(1) and c = "1.prems"(2) and bs = "1.prems"(3) and n = "1.prems"(4)
  show ?case
  proof (cases "0 < c \<and> c < n")
    case True
    have ml: "merge_loop lessf n c xs = merge_loop lessf n (2 * c) (merge_pass lessf c xs)"
      using True by (subst merge_loop.simps) auto
    from merge_pass_sorted [OF tp c bs]
    have mp: "blocks_sorted lessf (2 * c) (merge_pass lessf c xs)"
      "mset (merge_pass lessf c xs) = mset xs" by simp_all
    from mp(2) have "length (merge_pass lessf c xs) = length xs" by (rule mset_eq_length)
    with n have l: "length (merge_pass lessf c xs) = n" by simp
    have "0 < 2 * c" using c by simp
    from "1.IH" [OF True tp this mp(1) l] mp(2) show ?thesis by (simp add: ml)
  next
    case False
    then have ml: "merge_loop lessf n c xs = xs" by (subst merge_loop.simps) auto
    from False c n have "length xs \<le> c" by simp
    from blocks_sorted_short [OF bs this] show ?thesis by (simp add: ml)
  qed
qed

lemma stable_sorted:
  assumes "total_preorder lessf"
  shows "sorted_wrt lessf (stable lessf xs)" and "mset (stable lessf xs) = mset xs"
proof -
  have c: "0 < (20::nat)" by simp
  from sort_blocks_sorted [OF assms c, of xs]
  have sb: "blocks_sorted lessf 20 (sort_blocks lessf 20 xs)"
    "mset (sort_blocks lessf 20 xs) = mset xs" by simp_all
  from sb(2) have l: "length (sort_blocks lessf 20 xs) = length xs" by (rule mset_eq_length)
  from merge_loop_sorted [OF assms c sb(1) l] sb(2)
  show "sorted_wrt lessf (stable lessf xs)" and "mset (stable lessf xs) = mset xs"
    by (simp_all add: stable_def)
qed


subsection \<open>The comparator is a total preorder\<close>

lemma str_compare_range: "str_compare a b \<in> {- 1, 0, 1}"
  by (induction a b rule: str_compare.induct) simp_all

lemma str_compare_zero: "str_compare a b = 0 \<longleftrightarrow> a = b"
  by (induction a b rule: str_compare.induct) (auto simp: of_char_eq_iff)

lemma str_compare_anti: "str_compare b a = - str_compare a b"
  by (induction a b rule: str_compare.induct) auto

lemma str_compare_trans:
  "str_compare a b = 1 \<Longrightarrow> str_compare b c = 1 \<Longrightarrow> str_compare a c = 1"
proof (induction a arbitrary: b c)
  case Nil
  then show ?case by (cases b) simp_all
next
  case (Cons x xs)
  show ?case
  proof (cases b)
    case Nil
    with Cons.prems show ?thesis by (cases c) simp_all
  next
    case b: (Cons y ys)
    show ?thesis
    proof (cases c)
      case Nil
      then show ?thesis by simp
    next
      case (Cons z zs)
      with Cons.prems b Cons.IH [of ys zs] show ?thesis
        by (auto split: if_splits)
    qed
  qed
qed

lemma PR_Compare_range: "PR_Compare x y \<in> {- 1, 0, 1}"
  using str_compare_range by (cases x; cases y) auto

lemma PR_Compare_zero: "PR_Compare x y = 0 \<longleftrightarrow> x = y"
  by (cases x; cases y) (simp_all add: str_compare_zero)

lemma PR_Compare_anti: "PR_Compare y x = - PR_Compare x y"
proof (cases x)
  case (PRNum a)
  then show ?thesis by (cases y) auto
next
  case x: (PRStr a)
  show ?thesis
  proof (cases y)
    case (PRNum b)
    with x show ?thesis by simp
  next
    case (PRStr b)
    with x str_compare_anti [of a b] show ?thesis by simp
  qed
qed

lemma PR_Compare_trans:
  "PR_Compare x y = 1 \<Longrightarrow> PR_Compare y z = 1 \<Longrightarrow> PR_Compare x z = 1"
  by (cases x; cases y; cases z) (auto split: if_splits dest: str_compare_trans)

lemma pre_Compare_range: "pre_Compare a b \<in> {- 1, 0, 1}"
  by (induction a b rule: pre_Compare.induct) simp_all

lemma pre_Compare_zero: "pre_Compare a b = 0 \<longleftrightarrow> a = b"
  by (induction a b rule: pre_Compare.induct) (auto simp: PR_Compare_zero)

lemma pre_Compare_anti: "pre_Compare b a = - pre_Compare a b"
proof (induction a b rule: pre_Compare.induct)
  case (4 x xs y ys)
  have "PR_Compare x y = 0 \<or> PR_Compare x y = 1 \<or> PR_Compare x y = - 1"
    using PR_Compare_range [of x y] by auto
  moreover have "PR_Compare y x = - PR_Compare x y" by (rule PR_Compare_anti)
  ultimately show ?case using 4 by auto
qed simp_all

lemma pre_Compare_trans:
  "pre_Compare a b = 1 \<Longrightarrow> pre_Compare b c = 1 \<Longrightarrow> pre_Compare a c = 1"
proof (induction a arbitrary: b c)
  case Nil
  then show ?case by (cases b) simp_all
next
  case (Cons x xs)
  show ?case
  proof (cases b)
    case Nil
    with Cons.prems show ?thesis by (cases c) simp_all
  next
    case b: (Cons y ys)
    show ?thesis
    proof (cases c)
      case Nil
      then show ?thesis by simp
    next
      case c: (Cons z zs)
      have xy: "PR_Compare x y = 0 \<or> PR_Compare x y = 1"
        using Cons.prems(1) b by (auto split: if_splits)
      have yz: "PR_Compare y z = 0 \<or> PR_Compare y z = 1"
        using Cons.prems(2) b c by (auto split: if_splits)
      show ?thesis
      proof (cases "PR_Compare x y = 0")
        case x0: True
        then have e: "x = y" by (simp add: PR_Compare_zero)
        show ?thesis
        proof (cases "PR_Compare y z = 0")
          case True
          with x0 Cons.prems b c have "pre_Compare xs ys = 1" "pre_Compare ys zs = 1" by simp_all
          from Cons.IH [OF this] True e show ?thesis by (simp add: c)
        next
          case False
          with yz e show ?thesis by (simp add: c)
        qed
      next
        case False
        with xy have x1: "PR_Compare x y = 1" by simp
        show ?thesis
        proof (cases "PR_Compare y z = 0")
          case True
          then have "y = z" by (simp add: PR_Compare_zero)
          with x1 show ?thesis by (simp add: c)
        next
          case False
          with yz have "PR_Compare y z = 1" by simp
          from PR_Compare_trans [OF x1 this] show ?thesis by (simp add: c)
        qed
      qed
    qed
  qed
qed

lemma pre_Compare_ge_trans:
  assumes "0 \<le> pre_Compare a b" and "0 \<le> pre_Compare b c"
  shows "0 \<le> pre_Compare a c"
proof -
  from assms(1) pre_Compare_range [of a b]
  have ab: "a = b \<or> pre_Compare a b = 1" by (auto simp: pre_Compare_zero [symmetric])
  from assms(2) pre_Compare_range [of b c]
  have bc: "b = c \<or> pre_Compare b c = 1" by (auto simp: pre_Compare_zero [symmetric])
  from ab bc assms pre_Compare_trans [of a b c] show ?thesis by auto
qed

text \<open>
  What \<open>Compare\<close> answers when the three numbers agree: a version without prerelease is
  the greater one, two prerelease lists are compared element by element.
\<close>

definition pre_GE :: "PRVersion list \<Rightarrow> PRVersion list \<Rightarrow> bool" where
  "pre_GE p q = (p = [] \<or> (q \<noteq> [] \<and> 0 \<le> pre_Compare p q))"

lemma GE_iff:
  "GE v w \<longleftrightarrow>
     Major v > Major w \<or> (Major v = Major w \<and>
       (Minor v > Minor w \<or> (Minor v = Minor w \<and>
         (Patch v > Patch w \<or> (Patch v = Patch w \<and> pre_GE (Pre v) (Pre w))))))"
  by (auto simp: GE_def Compare_def pre_GE_def)

lemma pre_GE_total: "pre_GE p q \<or> pre_GE q p"
  using pre_Compare_anti [of p q] by (auto simp: pre_GE_def)

lemma pre_GE_trans: "pre_GE p q \<Longrightarrow> pre_GE q r \<Longrightarrow> pre_GE p r"
  using pre_Compare_ge_trans [of p q r] by (auto simp: pre_GE_def)

lemma GE_total: "GE v w \<or> GE w v"
  using pre_GE_total [of "Pre v" "Pre w"] by (auto simp: GE_iff)

lemma GE_trans: "GE u v \<Longrightarrow> GE v w \<Longrightarrow> GE u w"
  using pre_GE_trans [of "Pre u" "Pre v" "Pre w"] by (auto simp: GE_iff)

lemma version_less_total_preorder: "total_preorder version_less"
  unfolding total_preorder_def version_less_def
  using GE_total GE_trans by blast


subsection \<open>The returned slice\<close>

lemma scan_step_keys:
  assumes "\<forall>v\<in>set (snd st). \<exists>t. fst st v = Some t \<and> normalizeVersion t = v"
  shows "\<forall>v\<in>set (snd (scan_step st line)).
           \<exists>t. fst (scan_step st line) v = Some t \<and> normalizeVersion t = v"
  using assms by (cases "tag_of_line line") (auto simp: scan_step_def Let_def)

lemma foldl_scan_step_keys:
  assumes "\<forall>v\<in>set (snd st). \<exists>t. fst st v = Some t \<and> normalizeVersion t = v"
  shows "\<forall>v\<in>set (snd (foldl scan_step st ls)).
           \<exists>t. fst (foldl scan_step st ls) v = Some t \<and> normalizeVersion t = v"
  using assms
proof (induction ls arbitrary: st)
  case Nil
  then show ?case by simp
next
  case (Cons l ls)
  from Cons.IH [OF scan_step_keys [OF Cons.prems]] show ?case by simp
qed

lemma scan_listing_keys:
  "\<forall>v\<in>set (snd (scan_listing b)). \<exists>t. fst (scan_listing b) v = Some t \<and> normalizeVersion t = v"
  unfolding scan_listing_def by (rule foldl_scan_step_keys) simp

lemma normalized_versions_of:
  "map normalizeVersion (versions_of b) = stable version_less (snd (scan_listing b))"
proof -
  let ?s = "stable version_less (snd (scan_listing b))"
  let ?g = "\<lambda>value. case fst (scan_listing b) value of Some v \<Rightarrow> v | None \<Rightarrow> []"
  have "set ?s = set (snd (scan_listing b))"
    using stable_sorted(2) [OF version_less_total_preorder] by (rule mset_eq_setD)
  with scan_listing_keys [of b] have "\<forall>v\<in>set ?s. normalizeVersion (?g v) = v" by auto
  then have "map (\<lambda>v. normalizeVersion (?g v)) ?s = ?s" by (simp add: map_idI)
  then show ?thesis by (simp add: versions_of_def SliceStable_def Let_def o_def)
qed

text \<open>
  Claim C3. The tags are returned newest first: whenever one tag stands before another in the
  returned slice, the version made from the normalized form of the first is greater than or equal
  to that of the second (\<open>version_less\<close> is the comparison \<open>v1.GE(v2)\<close> handed to the sort).
  The normalized forms of the returned tags are those of the retained lines, each as often as it
  occurs. For the listing with the tags \<open>1.2.3\<close>, \<open>1.10.0\<close> and \<open>1.2.10\<close>, in this order,
  the result is \<open>1.10.0\<close>, \<open>1.2.10\<close>, \<open>1.2.3\<close>.
\<close>

theorem C3_sorted_newest_first:
  "sorted_wrt (\<lambda>x y. version_less (normalizeVersion x) (normalizeVersion y)) (versions_of b)
   \<and> mset (map normalizeVersion (versions_of b)) = mset (snd (scan_listing b))
   \<and> map tag_of_line (scan_lines listing_three)
       = [Some ''1.2.3'', Some ''1.10.0'', Some ''1.2.10'', None]
   \<and> versions_of listing_three = [''1.10.0'', ''1.2.10'', ''1.2.3'']"
proof (intro conjI)
  have "sorted_wrt version_less (map normalizeVersion (versions_of b))"
    unfolding normalized_versions_of
    by (rule stable_sorted(1) [OF version_less_total_preorder])
  then show "sorted_wrt (\<lambda>x y. version_less (normalizeVersion x) (normalizeVersion y))
      (versions_of b)"
    by (simp add: sorted_wrt_map)
  show "mset (map normalizeVersion (versions_of b)) = mset (snd (scan_listing b))"
    unfolding normalized_versions_of
    by (rule stable_sorted(2) [OF version_less_total_preorder])
  show "map tag_of_line (scan_lines listing_three)
       = [Some ''1.2.3'', Some ''1.10.0'', Some ''1.2.10'', None]"
    unfolding scan_lines_three by code_simp
  show "versions_of listing_three = [''1.10.0'', ''1.2.10'', ''1.2.3'']"
    by (rule versions_of_three)
qed

section \<open>Copying to a file and to other writers\<close>

text \<open>
  The writers other than files do not fail; \<open>feed b\<close> is what writing \<open>b\<close> does to one of
  them.
\<close>

definition pure_sink :: "sink \<Rightarrow> bool" where
  "pure_sink s = (case s of FileSink p \<Rightarrow> False | _ \<Rightarrow> True)"

definition feed :: "string \<Rightarrow> sink \<Rightarrow> sink" where
  "feed b s =
     (case s of
        FileSink p \<Rightarrow> FileSink p
      | HashSink acc \<Rightarrow> HashSink (acc @ b)
      | BarSink n \<Rightarrow> BarSink (n + length b))"

lemma feed_Nil: "map (feed []) ss = ss"
  by (induction ss) (auto simp: feed_def split: sink.splits)

lemma feed_append: "map (feed (a @ b)) ss = map (feed b) (map (feed a) ss)"
  by (induction ss) (auto simp: feed_def split: sink.splits)

lemma multi_Write_pure:
  "list_all pure_sink ss \<Longrightarrow> multi_Write w ss b = (w, map (feed b) ss, length b, None)"
proof (induction ss)
  case Nil
  then show ?case by simp
next
  case (Cons s ss)
  then show ?case by (cases s) (simp_all add: pure_sink_def feed_def)
qed

lemma multi_Write_file:
  assumes "fs w p = Some (File c t)" and "list_all pure_sink ss"
  shows "multi_Write w (FileSink p # ss) b =
     (if length b \<le> space w
      then (w\<lparr>fs := (fs w)(p \<mapsto> File (c @ b) (now w)), space := space w - length b\<rparr>,
            FileSink p # map (feed b) ss, length b, None)
      else (w\<lparr>fs := (fs w)(p \<mapsto> File (c @ take (space w) b) (now w)), space := 0\<rparr>,
            FileSink p # ss, space w, Some ErrNoSpace))"
  using assms(1) multi_Write_pure [OF assms(2)] by (simp add: file_Write_def)

lemma copy_loop_step:
  "buf \<noteq> [] \<Longrightarrow> copy_loop w dst (buf # bufs) er =
     (case multi_Write w dst buf of
        (w', dst', nw, Some ew) \<Rightarrow> (w', dst', nw, Some ew)
      | (w', dst', nw, None) \<Rightarrow>
          if length buf \<noteq> nw then (w', dst', nw, Some ErrShortWrite)
          else (case copy_loop w' dst' bufs er of
                  (w'', dst'', n, err) \<Rightarrow> (w'', dst'', nw + n, err)))"
  by simp

text \<open>
  A copy that has room for all the bytes: the file gains the bytes of the reader, each other
  writer is fed the same bytes, and the error is the one the reader ends with.
\<close>

lemma copy_loop_fits:
  assumes "fs w p = Some (File c (now w))" and "list_all pure_sink ss"
    and "length (concat bufs) \<le> space w"
  shows "copy_loop w (FileSink p # ss) bufs er =
     (w\<lparr>fs := (fs w)(p \<mapsto> File (c @ concat bufs) (now w)),
        space := space w - length (concat bufs)\<rparr>,
      FileSink p # map (feed (concat bufs)) ss, length (concat bufs), er)"
  using assms
proof (induction bufs arbitrary: w c ss)
  case Nil
  then show ?case by (simp add: feed_Nil fun_upd_idem)
next
  case (Cons buf bufs)
  show ?case
  proof (cases "buf = []")
    case True
    with Cons show ?thesis by simp
  next
    case False
    define w1 where
      "w1 = w\<lparr>fs := (fs w)(p \<mapsto> File (c @ buf) (now w)), space := space w - length buf\<rparr>"
    have fits: "length buf \<le> space w" using Cons.prems(3) by simp
    have mw: "multi_Write w (FileSink p # ss) buf
        = (w1, FileSink p # map (feed buf) ss, length buf, None)"
      using multi_Write_file [OF Cons.prems(1,2), of buf] fits by (simp add: w1_def)
    have f1: "fs w1 p = Some (File (c @ buf) (now w1))" by (simp add: w1_def)
    have p1: "list_all pure_sink (map (feed buf) ss)"
      using Cons.prems(2) by (induction ss) (auto simp: pure_sink_def feed_def split: sink.splits)
    have s1: "length (concat bufs) \<le> space w1"
      using Cons.prems(3) by (simp add: w1_def)
    show ?thesis
      unfolding copy_loop_step [OF False] mw
      using Cons.IH [OF f1 p1 s1] by (simp add: w1_def feed_append cong: if_cong)
  qed
qed

text \<open>
  A copy, whatever its outcome: the other writers have all been fed the same bytes \<open>h\<close>, the
  file has gained \<open>f\<close>, which starts with \<open>h\<close> and is the start of what the reader holds,
  nothing else in the world has changed but the room left, and without an error \<open>h\<close> and \<open>f\<close>
  are all the bytes of the reader.
\<close>

lemma copy_loop_sync:
  assumes "fs w p = Some (File c t)" and "list_all pure_sink ss"
    and "copy_loop w (FileSink p # ss) bufs er = (w', dst', n, err)"
  shows "\<exists>h f t'. dst' = FileSink p # map (feed h) ss
           \<and> fs w' p = Some (File (c @ f) t')
           \<and> prefix h f \<and> prefix f (concat bufs)
           \<and> (\<forall>q. q \<noteq> p \<longrightarrow> fs w' q = fs w q)
           \<and> cwd w' = cwd w \<and> now w' = now w \<and> log w' = log w \<and> environ w' = environ w
           \<and> (err = None \<longrightarrow> h = concat bufs \<and> f = concat bufs \<and> er = None
                 \<and> n = length (concat bufs))"
  using assms
proof (induction bufs arbitrary: w c t ss w' dst' n err)
  case Nil
  then show ?case by (auto simp: feed_Nil)
next
  case (Cons buf bufs)
  show ?case
  proof (cases "buf = []")
    case True
    with Cons.prems have "copy_loop w (FileSink p # ss) bufs er = (w', dst', n, err)"
      by simp
    from Cons.IH [OF Cons.prems(1,2) this] True show ?thesis by simp
  next
    case False
    note mw = multi_Write_file [OF Cons.prems(1,2), of buf]
    note eq = Cons.prems(3) [unfolded copy_loop_step [OF False] mw]
    show ?thesis
    proof (cases "length buf \<le> space w")
      case short: False
      with eq
      have r: "w' = w\<lparr>fs := (fs w)(p \<mapsto> File (c @ take (space w) buf) (now w)), space := 0\<rparr>"
        "dst' = FileSink p # ss" "err = Some ErrNoSpace"
        by auto
      have "prefix (take (space w) buf) (concat (buf # bufs))"
        by (simp add: take_is_prefix prefix_prefix)
      with r show ?thesis
        by (intro exI [of _ "[]"] exI [of _ "take (space w) buf"] exI [of _ "now w"])
           (simp add: feed_Nil)
    next
      case True
      define w1 where
        "w1 = w\<lparr>fs := (fs w)(p \<mapsto> File (c @ buf) (now w)), space := space w - length buf\<rparr>"
      obtain w2 dst2 n2 err2 where
        rec: "copy_loop w1 (FileSink p # map (feed buf) ss) bufs er = (w2, dst2, n2, err2)"
        by (metis prod_cases4)
      have f1: "fs w1 p = Some (File (c @ buf) (now w))" by (simp add: w1_def)
      have p1: "list_all pure_sink (map (feed buf) ss)"
        using Cons.prems(2)
        by (induction ss) (auto simp: pure_sink_def feed_def split: sink.splits)
      from eq True rec
      have res: "w' = w2" "dst' = dst2" "n = length buf + n2" "err = err2"
        by (auto simp: w1_def)
      from Cons.IH [OF f1 p1 rec] obtain h f t' where
        ih: "dst2 = FileSink p # map (feed h) (map (feed buf) ss)"
          "fs w2 p = Some (File ((c @ buf) @ f) t')" "prefix h f" "prefix f (concat bufs)"
          "\<forall>q. q \<noteq> p \<longrightarrow> fs w2 q = fs w1 q"
          "cwd w2 = cwd w1" "now w2 = now w1" "log w2 = log w1" "environ w2 = environ w1"
          "err2 = None \<longrightarrow> h = concat bufs \<and> f = concat bufs \<and> er = None
             \<and> n2 = length (concat bufs)"
        by blast
      show ?thesis
        using ih res
        by (intro exI [of _ "buf @ h"] exI [of _ "buf @ f"] exI [of _ t'])
           (simp add: w1_def feed_append)
    qed
  qed
qed

section \<open>Properties of the download\<close>


subsection \<open>What the operations leave unchanged\<close>

lemma proxy_fields [simp]:
  "fs (proxy E w) = fs w" "cwd (proxy E w) = cwd w" "now (proxy E w) = now w"
  "space (proxy E w) = space w" "log (proxy E w) = log w"
  by (simp_all add: proxy_def Setenv_def)

lemma http_Get_fields [simp]:
  "fs (fst (http_Get E w url)) = fs w" "cwd (fst (http_Get E w url)) = cwd w"
  "now (fst (http_Get E w url)) = now w" "space (fst (http_Get E w url)) = space w"
  "environ (fst (http_Get E w url)) = environ w"
  "log (fst (http_Get E w url)) = log w @ [HttpGet url]"
  "snd (http_Get E w url) = remote E url"
  by (simp_all add: http_Get_def)

lemma MkdirAll_fields [simp]:
  "cwd (fst (MkdirAll w p)) = cwd w" "now (fst (MkdirAll w p)) = now w"
  "space (fst (MkdirAll w p)) = space w" "log (fst (MkdirAll w p)) = log w"
  "environ (fst (MkdirAll w p)) = environ w"
  by (simp_all add: MkdirAll_def Let_def)

lemma Remove_fields [simp]:
  "cwd (fst (Remove w p)) = cwd w" "now (fst (Remove w p)) = now w"
  "space (fst (Remove w p)) = space w" "log (fst (Remove w p)) = log w"
  "environ (fst (Remove w p)) = environ w"
  by (simp_all add: Remove_def Let_def split: option.splits node.splits)

lemma RemoveAll_fields [simp]:
  "cwd (fst (RemoveAll w p)) = cwd w" "now (fst (RemoveAll w p)) = now w"
  "space (fst (RemoveAll w p)) = space w" "log (fst (RemoveAll w p)) = log w"
  "environ (fst (RemoveAll w p)) = environ w"
  by (simp_all add: RemoveAll_def empty_dir_def Let_def split: sum.splits option.splits)

lemma OpenFile_fields [simp]:
  "cwd (fst (OpenFile w p)) = cwd w" "now (fst (OpenFile w p)) = now w"
  "space (fst (OpenFile w p)) = space w" "log (fst (OpenFile w p)) = log w"
  "environ (fst (OpenFile w p)) = environ w"
  by (simp_all add: OpenFile_def Let_def split: option.splits node.splits)

lemma resolve_cong: "cwd w' = cwd w \<Longrightarrow> resolve w' p = resolve w p"
  by (simp add: resolve_def)

lemma resolve_fields [simp]:
  "resolve (proxy E w) p = resolve w p" "resolve (fst (http_Get E w url)) p = resolve w p"
  "resolve (fst (MkdirAll w q)) p = resolve w p" "resolve (fst (Remove w q)) p = resolve w p"
  "resolve (fst (RemoveAll w q)) p = resolve w p" "resolve (fst (OpenFile w q)) p = resolve w p"
  by (simp_all add: resolve_def)

lemma touch_other: "k \<noteq> d \<Longrightarrow> touch t d m k = m k"
  by (simp add: touch_def split: option.splits node.splits)

lemma touch_file: "m k = Some (File c t') \<Longrightarrow> touch t d m k = Some (File c t')"
  by (auto simp: touch_def split: option.splits node.splits)

lemma OpenFile_ok:
  assumes "OpenFile w name = (w', None)"
  shows "fs w' (resolve w name) = Some (File [] (now w))"
  using assms
  by (auto simp: OpenFile_def Let_def touch_file split: option.splits node.splits if_splits)


subsection \<open>The stages of the download\<close>

lemma verify_result:
  assumes "verify E w5 uri targetName acc = (w6, r)"
  shows "w6 = w5\<lparr>log := log w5 @ [HttpGet (uri @ ''.sha256'')]\<rparr>"
    and "r = Inr (nm, d) \<Longrightarrow> nm = targetName \<and> d = hex (sha256 E acc)"
  using assms
  by (auto simp: verify_def http_Get_def Let_def split: sum.splits if_splits)

lemma verify_sidecar:
  assumes "remote E (uri @ ''.sha256'') = Inr sresp" and "StatusCode sresp \<le> 299"
    and "ReadAll (Body sresp) = Inr shasum"
  shows "verify E w5 uri targetName acc =
     (w5\<lparr>log := log w5 @ [HttpGet (uri @ ''.sha256'')]\<rparr>,
      if hex (sha256 E acc) \<noteq> shasum then Inl (ChecksumMismatch (hex (sha256 E acc)) shasum)
      else Inr (targetName, hex (sha256 E acc)))"
  using assms by (simp add: verify_def http_Get_def Let_def)

text \<open>The world before the cache file is opened (lines 63 to 66).\<close>

definition cache_ready :: "world \<Rightarrow> string \<Rightarrow> world" where
  "cache_ready w1 target =
     fst (Remove (fst (MkdirAll w1 (Join [''cache'', ''downloads''])))
            (Join [Join [''cache'', ''downloads''], target]))"

lemma cache_ready_fields [simp]:
  "cwd (cache_ready w target) = cwd w" "now (cache_ready w target) = now w"
  "space (cache_ready w target) = space w" "log (cache_ready w target) = log w"
  "environ (cache_ready w target) = environ w"
  by (simp_all add: cache_ready_def)

lemma store_unfold:
  "store E w1 uri target body =
     (case OpenFile (cache_ready w1 target) (Join [Join [''cache'', ''downloads''], target]) of
        (w4, Some err) \<Rightarrow> (w4, Inl err)
      | (w4, None) \<Rightarrow>
          (case io_Copy w4 [FileSink (resolve w1 (Join [Join [''cache'', ''downloads''], target])),
                           HashSink [], BarSink 0] body of
             (w5, dst, n, Some err) \<Rightarrow> (w5, Inl err)
           | (w5, dst, n, None) \<Rightarrow>
               verify E w5 uri (Join [Join [''cache'', ''downloads''], target])
                 (hashed (dst ! 1))))"
proof -
  have "resolve w4 p = resolve w1 p"
    if "OpenFile (cache_ready w1 target) q = (w4, e)" for w4 p q e
  proof -
    have "cwd w4 = cwd (fst (OpenFile (cache_ready w1 target) q))" using that by simp
    then show ?thesis by (simp add: resolve_def)
  qed
  then show ?thesis
    by (simp add: store_def cache_ready_def Let_def split: prod.splits option.splits)
qed


lemma hashed_second: "hashed ((FileSink p # map (feed b) [HashSink [], BarSink 0]) ! 1) = b"
  by (simp add: hashed_def feed_def)

lemma store_ok:
  assumes "OpenFile (cache_ready w1 target) (Join [Join [''cache'', ''downloads''], target])
             = (w4, None)"
    and "snd body = None" and "length (concat (fst body)) \<le> space w1"
  shows "store E w1 uri target body =
     verify E
       (w4\<lparr>fs := (fs w4)(resolve w1 (Join [Join [''cache'', ''downloads''], target])
                      \<mapsto> File (concat (fst body)) (now w1)),
           space := space w1 - length (concat (fst body))\<rparr>)
       uri (Join [Join [''cache'', ''downloads''], target]) (concat (fst body))"
proof -
  let ?tn = "Join [Join [''cache'', ''downloads''], target]"
  let ?p = "resolve w1 ?tn"
  have w4: "w4 = fst (OpenFile (cache_ready w1 target) ?tn)" using assms(1) by simp
  have fields: "now w4 = now w1" "space w4 = space w1" unfolding w4 by simp_all
  have "resolve (cache_ready w1 target) ?tn = ?p" by (simp add: resolve_def)
  with OpenFile_ok [OF assms(1)] have f: "fs w4 ?p = Some (File [] (now w4))"
    by (simp add: fields)
  have pure: "list_all pure_sink [HashSink [], BarSink 0]" by (simp add: pure_sink_def)
  have fits: "length (concat (fst body)) \<le> space w4" using assms(3) fields by simp
  have "io_Copy w4 [FileSink ?p, HashSink [], BarSink 0] body =
      (w4\<lparr>fs := (fs w4)(?p \<mapsto> File (concat (fst body)) (now w4)),
          space := space w4 - length (concat (fst body))\<rparr>,
       FileSink ?p # map (feed (concat (fst body))) [HashSink [], BarSink 0],
       length (concat (fst body)), None)"
    unfolding io_Copy_def using copy_loop_fits [OF f pure fits, of "snd body"] assms(2) by simp
  then show ?thesis
    unfolding store_unfold assms(1) using hashed_second [of ?p "concat (fst body)"]
    by (simp add: fields)
qed

lemma store_Inr:
  assumes "store E w1 uri target body = (w', Inr (nm, d))"
  shows "nm = Join [Join [''cache'', ''downloads''], target]
     \<and> d = hex (sha256 E (concat (fst body)))
     \<and> (\<exists>t. fs w' (resolve w1 (Join [Join [''cache'', ''downloads''], target]))
                = Some (File (concat (fst body)) t))"
proof -
  let ?tn = "Join [Join [''cache'', ''downloads''], target]"
  let ?p = "resolve w1 ?tn"
  obtain w4 oe where op: "OpenFile (cache_ready w1 target) ?tn = (w4, oe)" by (cases "OpenFile (cache_ready w1 target) ?tn")
  with assms have oe: "oe = None" by (cases oe) (simp_all add: store_unfold)
  obtain w5 dst n ce where cp: "io_Copy w4 [FileSink ?p, HashSink [], BarSink 0] body = (w5, dst, n, ce)"
    by (metis prod_cases4)
  with assms op oe have ce: "ce = None" by (cases ce) (simp_all add: store_unfold)
  from assms op oe cp ce have v: "verify E w5 uri ?tn (hashed (dst ! 1)) = (w', Inr (nm, d))"
    by (simp add: store_unfold)
  have "resolve (cache_ready w1 target) ?tn = ?p" by (simp add: resolve_def)
  with OpenFile_ok [OF op [unfolded oe]] have f: "fs w4 ?p = Some (File [] (now (cache_ready w1 target)))"
    by simp
  have pure: "list_all pure_sink [HashSink [], BarSink 0]" by (simp add: pure_sink_def)
  from copy_loop_sync [OF f pure cp [unfolded io_Copy_def ce]]
  obtain t' where dst: "dst = FileSink ?p # map (feed (concat (fst body))) [HashSink [], BarSink 0]"
    and f5: "fs w5 ?p = Some (File (concat (fst body)) t')"
    by auto
  have h: "hashed (dst ! 1) = concat (fst body)" unfolding dst by (rule hashed_second)
  from verify_result [OF v] h f5 show ?thesis by simp
qed

lemma fetch_store:
  assumes "url_ok E (DefaultDownloadURLPrefix E @ ''/'' @ target)"
    and "remote E (DefaultDownloadURLPrefix E @ ''/'' @ target) = Inr resp"
    and "StatusCode resp \<le> 299" and "Atoi (ContentLength resp) = Inr sz"
  shows "fetch E w target =
     store E (fst (http_Get E (proxy E w) (DefaultDownloadURLPrefix E @ ''/'' @ target)))
       (DefaultDownloadURLPrefix E @ ''/'' @ target) target (Body resp)"
  using assms by (simp add: fetch_def Let_def http_Get_def)

lemma fetch_Inr:
  assumes "fetch E w target = (w', Inr x)"
  obtains resp sz where "url_ok E (DefaultDownloadURLPrefix E @ ''/'' @ target)"
    and "remote E (DefaultDownloadURLPrefix E @ ''/'' @ target) = Inr resp"
    and "StatusCode resp \<le> 299" and "Atoi (ContentLength resp) = Inr sz"
  using assms
  by (auto simp: fetch_def Let_def http_Get_def split: if_splits sum.splits)

lemma fetch_mismatch:
  assumes ok: "url_ok E uri" "StatusCode resp \<le> 299" "Atoi (ContentLength resp) = Inr sz"
    and uri: "uri = DefaultDownloadURLPrefix E @ ''/'' @ target"
    and tn: "targetName = Join [Join [''cache'', ''downloads''], target]"
    and resp: "remote E uri = Inr resp"
    and body: "body = concat (fst (Body resp))"
    and op: "OpenFile (cache_ready (fst (http_Get E (proxy E w) uri)) target) targetName
               = (w4, None)"
    and rd: "snd (Body resp) = None" "length body \<le> space w"
    and side: "remote E (uri @ ''.sha256'') = Inr sresp" "StatusCode sresp \<le> 299"
      "ReadAll (Body sresp) = Inr shasum"
    and differ: "hex (sha256 E body) \<noteq> shasum"
  shows "fetch E w target =
      (w4\<lparr>fs := (fs w4)(resolve w targetName \<mapsto> File body (now w)),
          space := space w - length body,
          log := log w @ [HttpGet uri, HttpGet (uri @ ''.sha256'')]\<rparr>,
       Inl (ChecksumMismatch (hex (sha256 E body)) shasum))"
proof -
  let ?w1 = "fst (http_Get E (proxy E w) uri)"
  let ?w5 = "w4\<lparr>fs := (fs w4)(resolve ?w1 targetName \<mapsto> File body (now ?w1)),
                 space := space ?w1 - length body\<rparr>"
  have w4: "w4 = fst (OpenFile (cache_ready ?w1 target) targetName)" using op by simp
  have lg: "log w4 = log w @ [HttpGet uri]" unfolding w4 by simp
  from op have op': "OpenFile (cache_ready ?w1 target) (Join [Join [''cache'', ''downloads''], target])
      = (w4, None)" by (simp add: tn)
  from rd have b: "snd (Body resp) = None" "length (concat (fst (Body resp))) \<le> space ?w1"
    by (simp_all add: body)
  have st: "store E ?w1 uri target (Body resp) = verify E ?w5 uri targetName body"
    using store_ok [OF op' b, of E uri] by (simp add: tn body)
  have ve: "verify E ?w5 uri targetName body
      = (?w5\<lparr>log := log ?w5 @ [HttpGet (uri @ ''.sha256'')]\<rparr>,
         Inl (ChecksumMismatch (hex (sha256 E body)) shasum))"
    using differ verify_sidecar [OF side, of ?w5 targetName body] by simp
  show ?thesis
    using ok resp fetch_store [of E target resp sz w] st ve by (simp add: uri lg)
qed

subsection \<open>Which paths the operations change\<close>

lemma touch_frame: "k \<noteq> d \<Longrightarrow> touch t d m k = m k"
  by (simp add: touch_def split: option.splits node.splits)

lemma mkdir_all_frame:
  "\<not> prefix k (d @ es) \<Longrightarrow> fst (mkdir_all t m d es) k = m k"
proof (induction es arbitrary: m d)
  case Nil
  then show ?case by simp
next
  case (Cons e es)
  have k1: "k \<noteq> d @ [e]" and k2: "k \<noteq> d"
    using Cons.prems by (auto simp: prefix_def)
  have np: "\<not> prefix k ((d @ [e]) @ es)" using Cons.prems by simp
  show ?case
    using Cons.IH [OF np] k1 k2
    by (simp add: touch_frame split: option.splits node.splits)
qed

lemma MkdirAll_frame:
  "\<not> prefix k (resolve w path) \<Longrightarrow> fs (fst (MkdirAll w path)) k = fs w k"
  using mkdir_all_frame [of k "[]" "resolve w path"]
  by (simp add: MkdirAll_def Let_def)

lemma prefix_butlast: "prefix (butlast p) p"
  by (simp add: prefixeq_butlast)

lemma not_prefix_neq: "\<not> prefix k p \<Longrightarrow> k \<noteq> p \<and> k \<noteq> butlast p \<and> k \<noteq> []"
  using prefix_butlast by auto

lemma Remove_frame:
  "\<not> prefix k (resolve w name) \<Longrightarrow> fs (fst (Remove w name)) k = fs w k"
  using not_prefix_neq [of k "resolve w name"]
  by (simp add: Remove_def Let_def touch_frame split: option.splits node.splits)

lemma OpenFile_frame:
  "\<not> prefix k (resolve w name) \<Longrightarrow> fs (fst (OpenFile w name)) k = fs w k"
  using not_prefix_neq [of k "resolve w name"]
  by (simp add: OpenFile_def Let_def touch_frame split: option.splits node.splits)

lemma io_Copy_frame:
  assumes "fs w p = Some (File c t)" and "list_all pure_sink ss"
    and "io_Copy w (FileSink p # ss) r = (w', dst', n, err)"
  shows "(\<forall>q. q \<noteq> p \<longrightarrow> fs w' q = fs w q) \<and> log w' = log w \<and> cwd w' = cwd w"
  using copy_loop_sync [OF assms(1,2) assms(3) [unfolded io_Copy_def]] by auto


lemma cache_ready_frame:
  assumes "\<not> prefix k (resolve w1 (Join [''cache'', ''downloads'']))"
    and "\<not> prefix k (resolve w1 (Join [Join [''cache'', ''downloads''], target]))"
  shows "fs (cache_ready w1 target) k = fs w1 k"
  using assms by (simp add: cache_ready_def Remove_frame MkdirAll_frame)

lemma store_frame:
  assumes "store E w1 uri target body = (w', r)"
  shows "(\<forall>k. \<not> prefix k (resolve w1 (Join [''cache'', ''downloads'']))
              \<and> \<not> prefix k (resolve w1 (Join [Join [''cache'', ''downloads''], target]))
              \<longrightarrow> fs w' k = fs w1 k)
         \<and> cwd w' = cwd w1
         \<and> (log w' = log w1 \<or> log w' = log w1 @ [HttpGet (uri @ ''.sha256'')])"
proof -
  let ?tn = "Join [Join [''cache'', ''downloads''], target]"
  let ?p = "resolve w1 ?tn"
  let ?wr = "cache_ready w1 target"
  obtain w4 oe where op: "OpenFile ?wr ?tn = (w4, oe)" by (cases "OpenFile ?wr ?tn")
  then have w4: "w4 = fst (OpenFile ?wr ?tn)" by simp
  have rr: "resolve ?wr ?tn = ?p" by (simp add: resolve_def)
  have f4: "fs w4 k = fs w1 k"
    if "\<not> prefix k (resolve w1 (Join [''cache'', ''downloads'']))" "\<not> prefix k ?p" for k
    using that cache_ready_frame [OF that] OpenFile_frame [of k ?wr ?tn, unfolded rr]
    by (simp add: w4)
  have l4: "log w4 = log w1" "cwd w4 = cwd w1" unfolding w4 by simp_all
  show ?thesis
  proof (cases oe)
    case (Some err)
    with assms op have "w' = w4" by (simp add: store_unfold)
    with f4 l4 show ?thesis by auto
  next
    case None
    obtain w5 dst n ce where cp: "io_Copy w4 [FileSink ?p, HashSink [], BarSink 0] body = (w5, dst, n, ce)"
      by (metis prod_cases4)
    from rr OpenFile_ok [OF op [unfolded None]] have f: "fs w4 ?p = Some (File [] (now ?wr))"
      by simp
    have pure: "list_all pure_sink [HashSink [], BarSink 0]" by (simp add: pure_sink_def)
    note fr = io_Copy_frame [OF f pure cp]
    have f5: "fs w5 k = fs w1 k"
      if "\<not> prefix k (resolve w1 (Join [''cache'', ''downloads'']))" "\<not> prefix k ?p" for k
      using that f4 [OF that] fr by auto
    show ?thesis
    proof (cases ce)
      case (Some err)
      with assms op None cp have "w' = w5" by (simp add: store_unfold)
      with f5 fr l4 show ?thesis by auto
    next
      case ce: None
      with assms op None cp have "verify E w5 uri ?tn (hashed (dst ! 1)) = (w', r)"
        by (simp add: store_unfold)
      from verify_result(1) [OF this] f5 fr l4 show ?thesis by auto
    qed
  qed
qed

text \<open>
  Whatever \<open>fetch\<close> returns, it has sent one or two requests and has changed the file system
  at most on the way to the cache directory and on the way to the cache file.
\<close>

lemma fetch_frame:
  assumes "fetch E w target = (w', r)"
  shows "(\<forall>k. \<not> prefix k (resolve w (Join [''cache'', ''downloads'']))
              \<and> \<not> prefix k (resolve w (Join [Join [''cache'', ''downloads''], target]))
              \<longrightarrow> fs w' k = fs w k)
         \<and> cwd w' = cwd w
         \<and> (\<exists>urls. log w' = log w @ map HttpGet urls)"
proof -
  let ?uri = "DefaultDownloadURLPrefix E @ ''/'' @ target"
  let ?w1 = "fst (http_Get E (proxy E w) ?uri)"
  have direct: ?thesis if "fs w' = fs w" "cwd w' = cwd w" "log w' = log w \<or> log w' = log w @ [HttpGet ?uri]"
  proof -
    from that(3) have "\<exists>urls. log w' = log w @ map HttpGet urls"
    proof
      assume "log w' = log w"
      then have "log w' = log w @ map HttpGet []" by simp
      then show ?thesis by blast
    next
      assume "log w' = log w @ [HttpGet ?uri]"
      then have "log w' = log w @ map HttpGet [?uri]" by simp
      then show ?thesis by blast
    qed
    with that show ?thesis by simp
  qed
  show ?thesis
  proof (cases "url_ok E ?uri")
    case False
    with assms have "w' = proxy E w" by (simp add: fetch_def Let_def)
    then show ?thesis by (intro direct) simp_all
  next
    case True
    show ?thesis
    proof (cases "remote E ?uri")
      case (Inl err)
      with assms True have "w' = ?w1" by (simp add: fetch_def Let_def http_Get_def)
      then show ?thesis by (intro direct) simp_all
    next
      case (Inr resp)
      show ?thesis
      proof (cases "StatusCode resp > 299")
        case big: True
        with assms \<open>url_ok E ?uri\<close> Inr have "w' = ?w1" by (simp add: fetch_def Let_def http_Get_def)
        then show ?thesis by (intro direct) simp_all
      next
        case False
        show ?thesis
        proof (cases "Atoi (ContentLength resp)")
          case (Inl err)
          with assms \<open>url_ok E ?uri\<close> Inr False have "w' = ?w1"
            by (simp add: fetch_def Let_def http_Get_def)
          then show ?thesis by (intro direct) simp_all
        next
          case sz: (Inr sz)
          from False have "StatusCode resp \<le> 299" by simp
          from assms fetch_store [OF \<open>url_ok E ?uri\<close> Inr this sz, of w]
          have "store E ?w1 ?uri target (Body resp) = (w', r)" by simp
          from store_frame [OF this]
          have fr: "\<forall>k. \<not> prefix k (resolve w (Join [''cache'', ''downloads'']))
              \<and> \<not> prefix k (resolve w (Join [Join [''cache'', ''downloads''], target]))
              \<longrightarrow> fs w' k = fs w k"
            and c: "cwd w' = cwd w"
            and l: "log w' = log w @ [HttpGet ?uri] \<or> log w' = log w @ [HttpGet ?uri, HttpGet (?uri @ ''.sha256'')]"
            by simp_all
          from l have "\<exists>urls. log w' = log w @ map HttpGet urls"
          proof
            assume "log w' = log w @ [HttpGet ?uri]"
            then have "log w' = log w @ map HttpGet [?uri]" by simp
            then show ?thesis by blast
          next
            assume "log w' = log w @ [HttpGet ?uri, HttpGet (?uri @ ''.sha256'')]"
            then have "log w' = log w @ map HttpGet [?uri, ?uri @ ''.sha256'']" by simp
            then show ?thesis by blast
          qed
          with fr c show ?thesis by blast
        qed
      qed
    qed
  qed
qed

subsection \<open>A concrete world\<close>

text \<open>
  A world to run the program in: the working directory \<open>/home\<close>, a destination \<open>/dest\<close>
  that holds a file, a server that delivers the archive \<open>abc\<close> in two pieces and the sidecar
  \<open>s\<close>, and a stand-in for SHA-256 (the theorems hold for every function in its place).
\<close>

definition toy_digest :: "string \<Rightarrow> string" where
  "toy_digest b = rev b"

definition archive_url :: string where
  "archive_url = ''https://dl.google.com/go/go.tgz''"

definition remote0 :: "string \<Rightarrow> string \<Rightarrow> error + response" where
  "remote0 sidecar url =
     (if url = ''https://dl.google.com/go/go.tgz''
      then Inr \<lparr>StatusCode = 200, ContentLength = ''3'', Body = ([''ab'', ''c''], None)\<rparr>
      else if url = ''https://dl.google.com/go/go.tgz.sha256''
      then Inr \<lparr>StatusCode = 200, ContentLength = [], Body = ([sidecar], None)\<rparr>
      else Inl (ErrNetwork ''no such host''))"

definition E0 :: "string \<Rightarrow> environment" where
  "E0 sidecar =
     \<lparr>DefaultDownloadURLPrefix = ''https://dl.google.com/go'', DefaultProxyURL = [],
      DefaultSourceURL = ''https://go.googlesource.com/go/+refs?format=TEXT'',
      GOOS = ''linux'', remote = remote0 sidecar, url_ok = (\<lambda>u. True), sha256 = toy_digest,
      gunzip_tar = (\<lambda>b. Inr ([], None)), unzip = (\<lambda>b. Inr [])\<rparr>"

definition w0 :: world where
  "w0 = \<lparr>fs = [[] \<mapsto> Dir 0, [''home''] \<mapsto> Dir 0, [''dest''] \<mapsto> Dir 0,
                [''dest'', ''old''] \<mapsto> File ''x'' 0],
          cwd = [''home''], now = 5, space = 100, environ = Map.empty, log = []\<rparr>"

lemma paths0:
  "Join [''cache'', ''downloads''] = ''cache/downloads''"
  "Join [''cache/downloads'', ''go.tgz''] = ''cache/downloads/go.tgz''"
  "rooted ''cache/downloads'' = False" "rooted ''cache/downloads/go.tgz'' = False"
  "elems ''cache/downloads'' = [''cache'', ''downloads'']"
  "elems ''cache/downloads/go.tgz'' = [''cache'', ''downloads'', ''go.tgz'']"
  by code_simp+

lemma resolve0:
  assumes "cwd w = [''home'']"
  shows "resolve w ''cache/downloads'' = [''home'', ''cache'', ''downloads'']"
    "resolve w ''cache/downloads/go.tgz'' = [''home'', ''cache'', ''downloads'', ''go.tgz'']"
  using assms by (simp_all add: resolve_def paths0)

lemma hex0: "hex (toy_digest ''abc'') = ''636261''"
  by code_simp

lemma open0:
  "snd (OpenFile (cache_ready (fst (http_Get (E0 s) (proxy (E0 s) w0) archive_url)) ''go.tgz'')
     ''cache/downloads/go.tgz'') = None"
  by (simp add: OpenFile_def cache_ready_def Remove_def MkdirAll_def Let_def paths0 resolve0
      w0_def touch_def)

lemma remote0_archive:
  "remote (E0 s) archive_url
     = Inr \<lparr>StatusCode = 200, ContentLength = ''3'', Body = ([''ab'', ''c''], None)\<rparr>"
  "remote (E0 s) (archive_url @ ''.sha256'')
     = Inr \<lparr>StatusCode = 200, ContentLength = [], Body = ([s], None)\<rparr>"
  by (simp_all add: E0_def remote0_def archive_url_def)

lemma E0_fields:
  "DefaultDownloadURLPrefix (E0 s) @ ''/'' @ ''go.tgz'' = archive_url"
  "url_ok (E0 s) u" "sha256 (E0 s) = toy_digest"
  by (simp_all add: E0_def archive_url_def)

lemma Atoi3: "Atoi ''3'' = Inr 3"
  by (simp add: Atoi_def numbers_def)

lemma paths1:
  "rooted ''/dest'' = True" "elems ''/dest'' = [''dest'']"
  "rooted ''cache'' = False" "elems ''cache'' = [''cache'']"
  by code_simp+

lemma hex1: "hex (toy_digest ''abc'') \<noteq> ''636260''"
  by code_simp

lemma fetch0_mismatch:
  "fetch (E0 ''636260'') w0 ''go.tgz'' =
     ((fst (OpenFile (cache_ready (fst (http_Get (E0 ''636260'') (proxy (E0 ''636260'') w0) archive_url)) ''go.tgz'')
              ''cache/downloads/go.tgz''))
        \<lparr>fs := (fs (fst (OpenFile (cache_ready (fst (http_Get (E0 ''636260'') (proxy (E0 ''636260'') w0) archive_url)) ''go.tgz'')
              ''cache/downloads/go.tgz'')))
                 (resolve w0 ''cache/downloads/go.tgz'' \<mapsto> File ''abc'' (now w0)),
          space := space w0 - length ''abc'',
          log := log w0 @ [HttpGet archive_url, HttpGet (archive_url @ ''.sha256'')]\<rparr>,
      Inl (ChecksumMismatch (hex (toy_digest ''abc'')) ''636260''))"
proof -
  let ?E = "E0 ''636260''"
  let ?resp = "\<lparr>StatusCode = 200, ContentLength = ''3'', Body = ([''ab'', ''c''], None)\<rparr>"
  let ?sresp = "\<lparr>StatusCode = 200, ContentLength = [], Body = ([''636260''], None)\<rparr>"
  have u: "archive_url = DefaultDownloadURLPrefix ?E @ ''/'' @ ''go.tgz''"
    by (simp add: E0_def archive_url_def)
  have t: "''cache/downloads/go.tgz'' = Join [Join [''cache'', ''downloads''], ''go.tgz'']"
    by (simp add: paths0)
  have r: "remote ?E archive_url = Inr ?resp" by (rule remote0_archive)
  have b: "''abc'' = concat (fst (Body ?resp))" by simp
  have op: "OpenFile (cache_ready (fst (http_Get ?E (proxy ?E w0) archive_url)) ''go.tgz'')
      ''cache/downloads/go.tgz''
      = (fst (OpenFile (cache_ready (fst (http_Get ?E (proxy ?E w0) archive_url)) ''go.tgz'')
      ''cache/downloads/go.tgz''), None)"
    using open0 [of "''636260''"] by (simp add: prod_eq_iff)
  show ?thesis
    using fetch_mismatch [of ?E archive_url ?resp 3 "''go.tgz''" "''cache/downloads/go.tgz''"
        "''abc''" w0 _ ?sresp "''636260''", OF _ _ _ u t r b op]
    by (simp add: E0_fields Atoi3 remote0_archive ReadAll_def hex1 w0_def)
qed

lemma fs0_after_open:
  "fs (fst (OpenFile (cache_ready (fst (http_Get (E0 s) (proxy (E0 s) w0) archive_url)) ''go.tgz'')
     ''cache/downloads/go.tgz'')) [''home'', ''cache''] = Some (Dir 5)"
  by (simp add: OpenFile_def cache_ready_def Remove_def MkdirAll_def Let_def paths0 resolve0
      w0_def touch_def)

subsection \<open>The claims\<close>

text \<open>
  Claim C1. Whatever the pieces are in which the body arrives, a copy that ends without an error
  has written the same bytes, in order, to the file and to the digest, and has counted their
  number; so whenever the download reaches the end of the verification, the cache file holds
  exactly the body and the digest is the (hex-encoded) SHA-256 of these bytes; and when the
  requests succeed, the cache file can be created, the body arrives whole and fits, and the
  sidecar holds the digest of the body, the download is verified with that digest and goes on
  to replace the destination.
\<close>


theorem C1_digest_of_the_written_bytes:
  assumes uri: "uri = DefaultDownloadURLPrefix E @ ''/'' @ target"
    and tn: "targetName = Join [Join [''cache'', ''downloads''], target]"
    and resp: "remote E uri = Inr resp"
    and body: "body = concat (fst (Body resp))"
  shows
    "(\<forall>w4 p t0 r w5 dst n.
        fs w4 p = Some (File [] t0)
        \<and> io_Copy w4 [FileSink p, HashSink [], BarSink 0] r = (w5, dst, n, None)
        \<longrightarrow> dst = [FileSink p, HashSink (concat (fst r)), BarSink (length (concat (fst r)))]
            \<and> (\<exists>t. fs w5 p = Some (File (concat (fst r)) t)) \<and> n = length (concat (fst r)))
     \<and> (\<forall>w' nm digest.
        fetch E w target = (w', Inr (nm, digest))
        \<longrightarrow> nm = targetName \<and> digest = hex (sha256 E body)
            \<and> (\<exists>t. fs w' (resolve w targetName) = Some (File body t)))
     \<and> (\<forall>w4 sresp sz.
        url_ok E uri \<and> StatusCode resp \<le> 299 \<and> Atoi (ContentLength resp) = Inr sz
        \<and> OpenFile (cache_ready (fst (http_Get E (proxy E w) uri)) target) targetName = (w4, None)
        \<and> snd (Body resp) = None \<and> length body \<le> space w
        \<and> remote E (uri @ ''.sha256'') = Inr sresp \<and> StatusCode sresp \<le> 299
        \<and> ReadAll (Body sresp) = Inr (hex (sha256 E body))
        \<longrightarrow> (\<exists>w'. fetch E w target = (w', Inr (targetName, hex (sha256 E body)))
                 \<and> fs w' (resolve w targetName) = Some (File body (now w))
                 \<and> downloadGoVersion E w target dest = install E w' targetName dest))"
proof (intro conjI allI impI)
  fix w4 p t0 r w5 dst n
  assume a: "fs w4 p = Some (File [] t0)
      \<and> io_Copy w4 [FileSink p, HashSink [], BarSink 0] r = (w5, dst, n, None)"
  have pure: "list_all pure_sink [HashSink [], BarSink 0]" by (simp add: pure_sink_def)
  from copy_loop_sync [OF conjunct1 [OF a] pure conjunct2 [OF a, unfolded io_Copy_def]]
  obtain t' where "dst = FileSink p # map (feed (concat (fst r))) [HashSink [], BarSink 0]"
    "fs w5 p = Some (File (concat (fst r)) t')" "n = length (concat (fst r))"
    by auto
  then show "dst = [FileSink p, HashSink (concat (fst r)), BarSink (length (concat (fst r)))]"
    "\<exists>t. fs w5 p = Some (File (concat (fst r)) t)" "n = length (concat (fst r))"
    by (simp_all add: feed_def)
next
  fix w' nm digest
  assume f: "fetch E w target = (w', Inr (nm, digest))"
  from fetch_Inr [OF f] obtain resp' sz where
    h: "url_ok E uri" "remote E uri = Inr resp'" "StatusCode resp' \<le> 299"
      "Atoi (ContentLength resp') = Inr sz"
    unfolding uri by blast
  with resp have r: "resp' = resp" by simp
  from f fetch_store [OF h [unfolded uri]]
  have "store E (fst (http_Get E (proxy E w) uri)) uri target (Body resp) = (w', Inr (nm, digest))"
    by (simp add: uri r)
  from store_Inr [OF this]
  show "nm = targetName" "digest = hex (sha256 E body)"
    "\<exists>t. fs w' (resolve w targetName) = Some (File body t)"
    by (simp_all add: tn body)
next
  fix w4 sresp sz
  assume a: "url_ok E uri \<and> StatusCode resp \<le> 299 \<and> Atoi (ContentLength resp) = Inr sz
        \<and> OpenFile (cache_ready (fst (http_Get E (proxy E w) uri)) target) targetName = (w4, None)
        \<and> snd (Body resp) = None \<and> length body \<le> space w
        \<and> remote E (uri @ ''.sha256'') = Inr sresp \<and> StatusCode sresp \<le> 299
        \<and> ReadAll (Body sresp) = Inr (hex (sha256 E body))"
  let ?w1 = "fst (http_Get E (proxy E w) uri)"
  let ?w5 = "w4\<lparr>fs := (fs w4)(resolve ?w1 targetName \<mapsto> File body (now ?w1)),
                 space := space ?w1 - length body\<rparr>"
  let ?w6 = "?w5\<lparr>log := log ?w5 @ [HttpGet (uri @ ''.sha256'')]\<rparr>"
  from a have op: "OpenFile (cache_ready ?w1 target) (Join [Join [''cache'', ''downloads''], target])
      = (w4, None)" by (simp add: tn)
  from a have b: "snd (Body resp) = None" "length (concat (fst (Body resp))) \<le> space ?w1"
    by (simp_all add: body)
  have st: "store E ?w1 uri target (Body resp) = verify E ?w5 uri targetName body"
    using store_ok [OF op b, of E uri] by (simp add: tn body)
  have ve: "verify E ?w5 uri targetName body = (?w6, Inr (targetName, hex (sha256 E body)))"
    using a verify_sidecar [of E uri sresp "hex (sha256 E body)" ?w5 targetName body] by simp
  have fe: "fetch E w target = (?w6, Inr (targetName, hex (sha256 E body)))"
    using a resp fetch_store [of E target resp sz w] st ve by (simp add: uri)
  have "fs ?w6 (resolve w targetName) = Some (File body (now w))"
    by simp
  moreover have "downloadGoVersion E w target dest = install E ?w6 targetName dest"
    by (simp add: downloadGoVersion_def fe)
  ultimately show "\<exists>w'. fetch E w target = (w', Inr (targetName, hex (sha256 E body)))
      \<and> fs w' (resolve w targetName) = Some (File body (now w))
      \<and> downloadGoVersion E w target dest = install E w' targetName dest"
    using fe by blast
qed

theorem C1_digest_of_the_written_bytes_witness:
  "snd (fetch (E0 ''636261'') w0 ''go.tgz'') = Inr (''cache/downloads/go.tgz'', hex (toy_digest ''abc''))
   \<and> fs (fst (fetch (E0 ''636261'') w0 ''go.tgz'')) [''home'', ''cache'', ''downloads'', ''go.tgz'']
       = Some (File ''abc'' 5)"
proof -
  let ?E = "E0 ''636261''"
  let ?resp = "\<lparr>StatusCode = 200, ContentLength = ''3'', Body = ([''ab'', ''c''], None)\<rparr>"
  let ?sresp = "\<lparr>StatusCode = 200, ContentLength = [], Body = ([''636261''], None)\<rparr>"
  let ?w4 = "fst (OpenFile (cache_ready (fst (http_Get ?E (proxy ?E w0) archive_url)) ''go.tgz'')
     ''cache/downloads/go.tgz'')"
  have hyp: "url_ok ?E archive_url \<and> StatusCode ?resp \<le> 299 \<and> Atoi (ContentLength ?resp) = Inr 3
        \<and> OpenFile (cache_ready (fst (http_Get ?E (proxy ?E w0) archive_url)) ''go.tgz'')
             ''cache/downloads/go.tgz'' = (?w4, None)
        \<and> snd (Body ?resp) = None \<and> length ''abc'' \<le> space w0
        \<and> remote ?E (archive_url @ ''.sha256'') = Inr ?sresp \<and> StatusCode ?sresp \<le> 299
        \<and> ReadAll (Body ?sresp) = Inr (hex (sha256 ?E ''abc''))"
    using open0 [of "''636261''"]
    by (simp add: E0_fields Atoi3 remote0_archive ReadAll_def hex0 w0_def prod_eq_iff)
  have u: "archive_url = DefaultDownloadURLPrefix ?E @ ''/'' @ ''go.tgz''"
    by (simp add: E0_def archive_url_def)
  have t: "''cache/downloads/go.tgz'' = Join [Join [''cache'', ''downloads''], ''go.tgz'']"
    by (simp add: paths0)
  have r: "remote ?E archive_url = Inr ?resp" by (rule remote0_archive)
  have b: "''abc'' = concat (fst (Body ?resp))" by simp
  note c1 = C1_digest_of_the_written_bytes [OF u t r b, of w0 "''/dest''"]
  note c1 [THEN conjunct2, THEN conjunct2, THEN spec, THEN spec, THEN spec, THEN mp, OF hyp]
  then show ?thesis
    by (auto simp: E0_fields resolve0 w0_def)
qed

text \<open>
  Claim C2. When the archive has been stored and the sidecar holds anything but the computed
  digest, \<open>downloadGoVersion\<close> fails with the checksum error that carries the computed and the
  published digest, the cache file is left with the bytes of the body, and nothing has been
  done but the two requests: the destination has not been removed and no archive unpacked.
\<close>


theorem C2_mismatch_keeps_the_file:
  assumes uri: "uri = DefaultDownloadURLPrefix E @ ''/'' @ target"
    and tn: "targetName = Join [Join [''cache'', ''downloads''], target]"
    and resp: "remote E uri = Inr resp"
    and body: "body = concat (fst (Body resp))"
    and ok: "url_ok E uri" "StatusCode resp \<le> 299" "Atoi (ContentLength resp) = Inr sz"
    and op: "OpenFile (cache_ready (fst (http_Get E (proxy E w) uri)) target) targetName
               = (w4, None)"
    and rd: "snd (Body resp) = None" "length body \<le> space w"
    and side: "remote E (uri @ ''.sha256'') = Inr sresp" "StatusCode sresp \<le> 299"
      "ReadAll (Body sresp) = Inr shasum"
    and differ: "hex (sha256 E body) \<noteq> shasum"
  shows "\<exists>w'. downloadGoVersion E w target dest
                 = (w', Some (ChecksumMismatch (hex (sha256 E body)) shasum))
           \<and> fs w' (resolve w targetName) = Some (File body (now w))
           \<and> log w' = log w @ [HttpGet uri, HttpGet (uri @ ''.sha256'')]"
  unfolding downloadGoVersion_def
    fetch_mismatch [OF ok uri tn resp body op rd side differ]
  by simp

theorem C2_mismatch_keeps_the_file_witness:
  "snd (downloadGoVersion (E0 ''636260'') w0 ''go.tgz'' ''/dest'')
     = Some (ChecksumMismatch ''636261'' ''636260'')
   \<and> fs (fst (downloadGoVersion (E0 ''636260'') w0 ''go.tgz'' ''/dest''))
        [''home'', ''cache'', ''downloads'', ''go.tgz''] = Some (File ''abc'' 5)
   \<and> log (fst (downloadGoVersion (E0 ''636260'') w0 ''go.tgz'' ''/dest''))
       = [HttpGet archive_url, HttpGet (archive_url @ ''.sha256'')]"
proof -
  let ?E = "E0 ''636260''"
  let ?resp = "\<lparr>StatusCode = 200, ContentLength = ''3'', Body = ([''ab'', ''c''], None)\<rparr>"
  let ?sresp = "\<lparr>StatusCode = 200, ContentLength = [], Body = ([''636260''], None)\<rparr>"
  have u: "archive_url = DefaultDownloadURLPrefix ?E @ ''/'' @ ''go.tgz''"
    by (simp add: E0_def archive_url_def)
  have t: "''cache/downloads/go.tgz'' = Join [Join [''cache'', ''downloads''], ''go.tgz'']"
    by (simp add: paths0)
  have r: "remote ?E archive_url = Inr ?resp" by (rule remote0_archive)
  have b: "''abc'' = concat (fst (Body ?resp))" by simp
  have ok: "url_ok ?E archive_url" "StatusCode ?resp \<le> 299" "Atoi (ContentLength ?resp) = Inr 3"
    by (simp_all add: E0_fields Atoi3)
  have op: "OpenFile (cache_ready (fst (http_Get ?E (proxy ?E w0) archive_url)) ''go.tgz'')
      ''cache/downloads/go.tgz''
      = (fst (OpenFile (cache_ready (fst (http_Get ?E (proxy ?E w0) archive_url)) ''go.tgz'')
      ''cache/downloads/go.tgz''), None)"
    using open0 [of "''636260''"] by (simp add: prod_eq_iff)
  have rd: "snd (Body ?resp) = None" "length ''abc'' \<le> space w0" by (simp_all add: w0_def)
  have side: "remote ?E (archive_url @ ''.sha256'') = Inr ?sresp" "StatusCode ?sresp \<le> 299"
    "ReadAll (Body ?sresp) = Inr ''636260''"
    by (simp_all add: remote0_archive ReadAll_def)
  have differ: "hex (sha256 ?E ''abc'') \<noteq> ''636260''" by (simp add: E0_fields hex1)
  have rt: "resolve w0 ''cache/downloads/go.tgz'' = [''home'', ''cache'', ''downloads'', ''go.tgz'']"
    by (rule resolve0) (simp add: w0_def)
  have nl: "now w0 = 5" "log w0 = []" by (simp_all add: w0_def)
  from C2_mismatch_keeps_the_file [OF u t r b ok op rd side differ, of "''/dest''"]
  show ?thesis
    by (auto simp: E0_fields hex0 rt nl)
qed


text \<open>
  Claim C10, amended. When the download fails before the digests have been found equal
  (\<open>fetch\<close> returns an error: any of the failures from the construction of the request to the
  checksum mismatch), \<open>downloadGoVersion\<close> returns this error, nothing has been done but
  requests (no call removes the destination or unpacks into it), and the only paths whose nodes
  have changed lie on the way to the cache directory \<open>cache/downloads\<close> or to the cache file. So
  the destination and all below it are as before whenever the destination is not the cache
  file, the cache directory or a directory above one of them.
\<close>


theorem C10_failure_leaves_destination:
  assumes "fetch E w target = (w', Inl err)"
  shows "downloadGoVersion E w target dest = (w', Some err)
     \<and> (\<exists>urls. log w' = log w @ map HttpGet urls)
     \<and> (\<forall>k. \<not> prefix k (resolve w (Join [''cache'', ''downloads'']))
            \<and> \<not> prefix k (resolve w (Join [Join [''cache'', ''downloads''], target]))
            \<longrightarrow> fs w' k = fs w k)
     \<and> (\<not> prefix (resolve w dest) (resolve w (Join [''cache'', ''downloads'']))
        \<and> \<not> prefix (resolve w dest) (resolve w (Join [Join [''cache'', ''downloads''], target]))
        \<longrightarrow> (\<forall>k. prefix (resolve w dest) k \<longrightarrow> fs w' k = fs w k))"
proof -
  note fr = fetch_frame [OF assms]
  have d: "downloadGoVersion E w target dest = (w', Some err)"
    by (simp add: downloadGoVersion_def assms)
  have sub: "fs w' k = fs w k"
    if "\<not> prefix (resolve w dest) (resolve w (Join [''cache'', ''downloads'']))"
      "\<not> prefix (resolve w dest) (resolve w (Join [Join [''cache'', ''downloads''], target]))"
      "prefix (resolve w dest) k" for k
  proof -
    have "\<not> prefix k (resolve w (Join [''cache'', ''downloads'']))"
      using that(1,3) prefix_order.order_trans by blast
    moreover have "\<not> prefix k (resolve w (Join [Join [''cache'', ''downloads''], target]))"
      using that(2,3) prefix_order.order_trans by blast
    ultimately show ?thesis using fr by blast
  qed
  from d fr sub show ?thesis by blast
qed

theorem C10_failure_leaves_destination_witness:
  "snd (downloadGoVersion (E0 ''636260'') w0 ''go.tgz'' ''/dest'')
     = Some (ChecksumMismatch ''636261'' ''636260'')
   \<and> fs (fst (downloadGoVersion (E0 ''636260'') w0 ''go.tgz'' ''/dest'')) [''dest'']
       = Some (Dir 0)
   \<and> fs (fst (downloadGoVersion (E0 ''636260'') w0 ''go.tgz'' ''/dest'')) [''dest'', ''old'']
       = Some (File ''x'' 0)"
proof -
  have r: "resolve w0 ''/dest'' = [''dest'']"
    by (simp add: resolve_def paths1)
  have rc: "resolve w0 (Join [''cache'', ''downloads'']) = [''home'', ''cache'', ''downloads'']"
    "resolve w0 (Join [Join [''cache'', ''downloads''], ''go.tgz''])
       = [''home'', ''cache'', ''downloads'', ''go.tgz'']"
    using resolve0 [of w0] by (simp_all add: paths0 w0_def)
  have n: "\<not> prefix (resolve w0 ''/dest'') (resolve w0 (Join [''cache'', ''downloads'']))
      \<and> \<not> prefix (resolve w0 ''/dest'')
            (resolve w0 (Join [Join [''cache'', ''downloads''], ''go.tgz'']))"
    by (simp add: r rc)
  note c10 = C10_failure_leaves_destination [OF fetch0_mismatch, of "''/dest''"]
  note keep = c10 [THEN conjunct2, THEN conjunct2, THEN conjunct2, THEN mp, OF n, unfolded r,
      rule_format]
  have "fs w0 [''dest''] = Some (Dir 0)" "fs w0 [''dest'', ''old''] = Some (File ''x'' 0)"
    by (simp_all add: w0_def)
  with c10 [THEN conjunct1] keep [of "[''dest'']"] keep [of "[''dest'', ''old'']"]
  show ?thesis by (simp add: hex0)
qed

text \<open>
  Claim C10 as stated fails when the destination is on the way to the cache file: with the
  destination \<open>cache\<close>, a download that ends in a checksum mismatch has created the
  destination, which did not exist before.
\<close>


theorem C10_counterexample:
  "snd (downloadGoVersion (E0 ''636260'') w0 ''go.tgz'' ''cache'')
     = Some (ChecksumMismatch ''636261'' ''636260'')
   \<and> resolve w0 ''cache'' = [''home'', ''cache'']
   \<and> fs w0 [''home'', ''cache''] = None
   \<and> fs (fst (downloadGoVersion (E0 ''636260'') w0 ''go.tgz'' ''cache'')) [''home'', ''cache'']
       = Some (Dir 5)"
proof -
  have r: "resolve w0 ''cache'' = [''home'', ''cache'']"
    by (simp add: resolve_def paths1 w0_def)
  have n: "fs w0 [''home'', ''cache''] = None" by (simp add: w0_def)
  have rt: "resolve w0 ''cache/downloads/go.tgz'' = [''home'', ''cache'', ''downloads'', ''go.tgz'']"
    by (rule resolve0) (simp add: w0_def)
  show ?thesis
    by (simp add: downloadGoVersion_def fetch0_mismatch hex0 r n rt fs0_after_open)
qed

section \<open>Properties of the extraction\<close>

lemma touch_keeps_dir: "m k = Some (Dir t0) \<Longrightarrow> \<exists>t'. touch t d m k = Some (Dir t')"
  by (auto simp: touch_def split: option.splits node.splits)

lemma mkdir_all_keeps_dir:
  "m k = Some (Dir t0) \<Longrightarrow> \<exists>t'. fst (mkdir_all t m d es) k = Some (Dir t')"
proof (induction es arbitrary: m d t0)
  case Nil
  then show ?case by simp
next
  case (Cons e es)
  show ?case
  proof (cases "m (d @ [e])")
    case None
    have "\<exists>t'. touch t d (m(d @ [e] \<mapsto> Dir t)) k = Some (Dir t')"
      using Cons.prems by (intro touch_keeps_dir [of _ _ "if k = d @ [e] then t else t0"]) simp
    then obtain t1 where "touch t d (m(d @ [e] \<mapsto> Dir t)) k = Some (Dir t1)" by blast
    from Cons.IH [where m = "touch t d (m(d @ [e] \<mapsto> Dir t))" and d = "d @ [e]", OF this] None
    show ?thesis by simp
  next
    case (Some nd)
    with Cons show ?thesis by (cases nd) auto
  qed
qed

lemma mkdir_all_creates:
  "snd (mkdir_all t m d es) = None \<Longrightarrow> es \<noteq> []
    \<Longrightarrow> \<exists>t'. fst (mkdir_all t m d es) (d @ es) = Some (Dir t')"
proof (induction es arbitrary: m d)
  case Nil
  then show ?case by simp
next
  case (Cons e es)
  show ?case
  proof (cases "m (d @ [e])")
    case None
    let ?m = "touch t d (m(d @ [e] \<mapsto> Dir t))"
    have here: "\<exists>t'. ?m (d @ [e]) = Some (Dir t')"
      by (intro touch_keeps_dir [of _ _ t]) simp
    show ?thesis
    proof (cases "es = []")
      case True
      with None here show ?thesis by simp
    next
      case False
      from Cons.prems(1) None have "snd (mkdir_all t ?m (d @ [e]) es) = None" by simp
      from Cons.IH [where m = ?m and d = "d @ [e]", OF this False] None show ?thesis by simp
    qed
  next
    case (Some nd)
    show ?thesis
    proof (cases nd)
      case (Dir t0)
      show ?thesis
      proof (cases "es = []")
        case True
        with Some Dir show ?thesis by simp
      next
        case False
        from Cons.prems(1) Some Dir have "snd (mkdir_all t m (d @ [e]) es) = None" by simp
        from Cons.IH [where m = m and d = "d @ [e]", OF this False] Some Dir show ?thesis by simp
      qed
    next
      case (File c t0)
      with Cons.prems(1) Some show ?thesis by simp
    qed
  qed
qed

lemma MkdirAll_creates:
  assumes "MkdirAll w path = (w', None)" and "resolve w path \<noteq> []"
  shows "\<exists>t'. fs w' (resolve w path) = Some (Dir t')"
proof -
  from assms(1) have "path \<noteq> []" by (auto simp: MkdirAll_def)
  with assms(1) have r: "snd (mkdir_all (now w) (fs w) [] (resolve w path)) = None"
    "fs w' = fst (mkdir_all (now w) (fs w) [] (resolve w path))"
    by (auto simp: MkdirAll_def Let_def)
  from mkdir_all_creates [OF r(1) assms(2)] r(2) show ?thesis by simp
qed

lemma unpack_file:
  assumes "\<not> IsDir fi" and "unpack w dest name fi = (w', None)"
  shows "\<exists>t. fs w' (resolve w (entry_path dest name)) = Some (File (concat (fst (Data fi))) t)"
proof -
  let ?path = "entry_path dest name"
  obtain w1 oe where op: "OpenFile w ?path = (w1, oe)" by (cases "OpenFile w ?path")
  with assms have oe: "oe = None" by (cases oe) (simp_all add: unpack_def)
  obtain w2 dst n ce where cp: "io_Copy w1 [FileSink (resolve w ?path), BarSink 0] (Data fi) = (w2, dst, n, ce)"
    by (metis prod_cases4)
  with assms op oe have r: "w2 = w'" "ce = None" by (simp_all add: unpack_def)
  from OpenFile_ok [OF op [unfolded oe]] have f: "fs w1 (resolve w ?path) = Some (File [] (now w))" .
  have pure: "list_all pure_sink [BarSink 0]" by (simp add: pure_sink_def)
  from copy_loop_sync [OF f pure cp [unfolded io_Copy_def r]]
  show ?thesis by auto
qed

lemma unpack_dir:
  assumes "IsDir fi" and "unpack w dest name fi = (w', None)"
    and "resolve w (entry_path dest name) \<noteq> []"
  shows "\<exists>t. fs w' (resolve w (entry_path dest name)) = Some (Dir t)"
  using assms MkdirAll_creates [of w "entry_path dest name" w'] by (simp add: unpack_def)

lemma entry_path_root: "entry_path dest (''go/'' @ rest) = Join [dest, rest]"
  by (simp add: entry_path_def HasPrefix_def)

lemma entry_path_other: "\<not> HasPrefix name ''go/'' \<Longrightarrow> entry_path dest name = Join [dest, name]"
  by (simp add: entry_path_def)

lemma entry_paths0:
  "entry_path ''/dest'' ''go/bin/tool'' = ''/dest/bin/tool''"
  "entry_path ''/dest'' ''go/README'' = ''/dest/README''"
  "entry_path ''/dest'' ''go/bin'' = ''/dest/bin''"
  "entry_path ''/dest'' ''LICENSE'' = ''/dest/LICENSE''"
  "rooted ''/dest/bin/tool''" "elems ''/dest/bin/tool'' = [''dest'', ''bin'', ''tool'']"
  "rooted ''/dest/README''" "elems ''/dest/README'' = [''dest'', ''README'']"
  "rooted ''/dest/bin''" "elems ''/dest/bin'' = [''dest'', ''bin'']"
  by code_simp+

text \<open>
  Claim C8. For an entry whose name starts with the common root \<open>go/\<close>, \<open>unpack\<close> joins the
  destination with the name without this one leading segment; for any other entry it joins the
  destination with the name as it is. The entry is then created at that path: a file entry
  that is unpacked without error leaves a file with its content there, a directory entry a
  directory. With the destination \<open>/dest\<close>, the entries \<open>go/bin/tool\<close> and \<open>go/README\<close> go
  to \<open>/dest/bin/tool\<close> and \<open>/dest/README\<close>.
\<close>

theorem C8_common_root_is_stripped:
  "entry_path dest (''go/'' @ rest) = Join [dest, rest]
   \<and> (\<not> HasPrefix name ''go/'' \<longrightarrow> entry_path dest name = Join [dest, name])
   \<and> (\<not> IsDir fi \<and> unpack w dest name fi = (w', None)
        \<longrightarrow> (\<exists>t. fs w' (resolve w (entry_path dest name))
                   = Some (File (concat (fst (Data fi))) t)))
   \<and> (IsDir fi \<and> unpack w dest name fi = (w', None) \<and> resolve w (entry_path dest name) \<noteq> []
        \<longrightarrow> (\<exists>t. fs w' (resolve w (entry_path dest name)) = Some (Dir t)))
   \<and> entry_path ''/dest'' ''go/bin/tool'' = ''/dest/bin/tool''
   \<and> entry_path ''/dest'' ''go/README'' = ''/dest/README''
   \<and> entry_path ''/dest'' ''LICENSE'' = ''/dest/LICENSE''"
  using entry_path_root entry_path_other unpack_file unpack_dir entry_paths0(1,2,4)
  by blast

text \<open>The entries \<open>go/bin\<close> (a directory), \<open>go/bin/tool\<close> and \<open>go/README\<close>.\<close>

definition entries0 :: "entry list" where
  "entries0 =
     [\<lparr>Name = ''go/bin'', IsDir = True, Mode = 493, Data = ([], None), OpenErr = None\<rparr>,
      \<lparr>Name = ''go/bin/tool'', IsDir = False, Mode = 493, Data = ([''to'', ''ol''], None),
        OpenErr = None\<rparr>,
      \<lparr>Name = ''go/README'', IsDir = False, Mode = 420, Data = ([''read me''], None),
        OpenErr = None\<rparr>]"

lemma unpack_entries0:
  "snd (unpack_entries w0 ''/dest'' entries0 None) = None"
  "fs (fst (unpack_entries w0 ''/dest'' entries0 None)) [''dest'', ''bin'', ''tool'']
     = Some (File ''tool'' 5)"
  "fs (fst (unpack_entries w0 ''/dest'' entries0 None)) [''dest'', ''README'']
     = Some (File ''read me'' 5)"
  "fs (fst (unpack_entries w0 ''/dest'' entries0 None)) [''dest'', ''go'', ''bin'', ''tool'']
     = None"
  by (simp_all add: entries0_def unpack_def entry_paths0 MkdirAll_def OpenFile_def io_Copy_def
      file_Write_def resolve_def Let_def touch_def w0_def)


theorem C8_common_root_is_stripped_witness:
  "\<not> IsDir (entries0 ! 2)
   \<and> snd (unpack w0 ''/dest'' ''go/README'' (entries0 ! 2)) = None
   \<and> (\<exists>t. fs (fst (unpack w0 ''/dest'' ''go/README'' (entries0 ! 2))) [''dest'', ''README'']
             = Some (File ''read me'' t))
   \<and> snd (unpack_entries w0 ''/dest'' entries0 None) = None
   \<and> fs (fst (unpack_entries w0 ''/dest'' entries0 None)) [''dest'', ''bin'', ''tool'']
       = Some (File ''tool'' 5)
   \<and> fs (fst (unpack_entries w0 ''/dest'' entries0 None)) [''dest'', ''README'']
       = Some (File ''read me'' 5)
   \<and> fs (fst (unpack_entries w0 ''/dest'' entries0 None)) [''dest'', ''go'', ''bin'', ''tool'']
       = None"
proof -
  let ?fi = "entries0 ! 2"
  have hs: "\<not> IsDir ?fi" "snd (unpack w0 ''/dest'' ''go/README'' ?fi) = None"
    by (simp_all add: entries0_def unpack_def entry_paths0 OpenFile_def io_Copy_def
        file_Write_def resolve_def Let_def touch_def w0_def)
  then have h: "\<not> IsDir ?fi \<and> unpack w0 ''/dest'' ''go/README'' ?fi
      = (fst (unpack w0 ''/dest'' ''go/README'' ?fi), None)"
    by (simp add: prod_eq_iff)
  have r: "resolve w0 (entry_path ''/dest'' ''go/README'') = [''dest'', ''README'']"
    by (simp add: entry_paths0 resolve_def)
  have d: "concat (fst (Data ?fi)) = ''read me''" by (simp add: entries0_def)
  note c8 = C8_common_root_is_stripped [of "''/dest''" "[]" "''go/README''" ?fi w0
      "fst (unpack w0 ''/dest'' ''go/README'' ?fi)"]
  from c8 [THEN conjunct2, THEN conjunct2, THEN conjunct1, THEN mp, OF h] hs unpack_entries0
  show ?thesis by (simp add: r d)
qed

subsection \<open>An archive without entries\<close>

lemma walk_last:
  assumes "walk m d es = Inr p" and "es \<noteq> []" and "last es \<noteq> ''.''" and "last es \<noteq> ''..''"
  shows "p \<noteq> []"
  using assms
proof (induction es arbitrary: d)
  case Nil
  then show ?case by simp
next
  case (Cons e es)
  show ?case
  proof (cases "es = []")
    case True
    with Cons.prems show ?thesis by (auto split: if_splits)
  next
    case False
    with Cons.prems have "dir_at m d" by (auto split: if_splits)
    with Cons.prems False Cons.IH show ?thesis by (auto split: if_splits)
  qed
qed

lemma lookup_log [simp]: "lookup (w\<lparr>log := l\<rparr>) path = lookup w path"
  by (simp add: lookup_def)

lemma RemoveAll_gone:
  assumes "path \<noteq> []" and "\<not> endsWithDot path" and "lookup w path = Inr p"
    and "comps path \<noteq> []" and "last (comps path) \<noteq> ''.''" and "last (comps path) \<noteq> ''..''"
  shows "fs (fst (RemoveAll w path)) p = None"
    and "fs w p \<noteq> None \<Longrightarrow> prefix p k \<Longrightarrow> fs (fst (RemoveAll w path)) k = None"
proof -
  have "p \<noteq> []"
    using assms(3) walk_last [OF _ assms(4,5,6)] by (simp add: lookup_def)
  then have l: "length (butlast p) < length p" by simp
  then have "p \<noteq> butlast p" by (metis less_irrefl)
  then show "fs (fst (RemoveAll w path)) p = None"
    using assms by (cases "fs w p") (simp_all add: RemoveAll_def remove_tree_def touch_frame)
  assume ex: "fs w p \<noteq> None" and pk: "prefix p k"
  have "length p \<le> length k" using pk by (rule prefix_length_le)
  with l have ne: "k \<noteq> butlast p" by auto
  have tk: "take (length p) k = p" using pk by (auto simp: prefix_def)
  show "fs (fst (RemoveAll w path)) k = None"
    using assms ne tk ex
    by (cases "fs w p") (simp_all add: RemoveAll_def remove_tree_def touch_frame)
qed

lemma RemoveAll_keeps_file:
  assumes "fs w k = Some (File c t)" and "\<And>p. lookup w path = Inr p \<Longrightarrow> \<not> prefix p k"
  shows "fs (fst (RemoveAll w path)) k = Some (File c t)"
proof (cases "lookup w path")
  case (Inl err)
  with assms(1) show ?thesis by (simp add: RemoveAll_def)
next
  case (Inr p)
  with assms(2) have "take (length p) k \<noteq> p" by (metis take_is_prefix)
  with assms(1) Inr show ?thesis
    by (simp add: RemoveAll_def empty_dir_def remove_tree_def remove_below_def touch_file
        split: option.splits)
qed

text \<open>
  Unpacking an archive without entries changes nothing: what \<open>RemoveAll\<close> has left of the
  destination is what there is in the end.
\<close>

lemma install_empty_archive:
  assumes cached: "fs w (resolve w targetName) = Some (File bytes t)" and "targetName \<noteq> []"
    and empty: "if GOOS E = ''windows'' then unzip E bytes = Inr []
                else gunzip_tar E bytes = Inr ([], None)"
    and apart: "\<And>p. lookup w dest = Inr p \<Longrightarrow> \<not> prefix p (resolve w targetName)"
  shows "install E w targetName dest =
     ((fst (RemoveAll (w\<lparr>log := log w @ [RemoveAllCall dest]\<rparr>) dest))
        \<lparr>log := log w @ [RemoveAllCall dest, UnpackCall targetName dest]\<rparr>, None)"
proof -
  let ?wl = "w\<lparr>log := log w @ [RemoveAllCall dest]\<rparr>"
  let ?w7 = "fst (RemoveAll ?wl dest)"
  let ?w7l = "?w7\<lparr>log := log ?w7 @ [UnpackCall targetName dest]\<rparr>"
  have rs: "resolve ?wl p = resolve w p" for p by (simp add: resolve_def)
  have "fs ?w7 (resolve w targetName) = Some (File bytes t)"
    using RemoveAll_keeps_file [of ?wl "resolve w targetName" bytes t dest] cached apart
    by simp
  moreover have "resolve ?w7l targetName = resolve w targetName" by (simp add: resolve_def)
  ultimately have rf: "ReadFile ?w7l targetName = Inr bytes"
    using assms(2) by (simp add: ReadFile_def)
  have l7: "log ?w7 = log w @ [RemoveAllCall dest]" by simp
  show ?thesis
    using rf empty by (simp add: install_def Let_def unpackTar_def unpackZip_def l7)
qed

lemma fetch_match:
  assumes ok: "url_ok E uri" "StatusCode resp \<le> 299" "Atoi (ContentLength resp) = Inr sz"
    and uri: "uri = DefaultDownloadURLPrefix E @ ''/'' @ target"
    and tn: "targetName = Join [Join [''cache'', ''downloads''], target]"
    and resp: "remote E uri = Inr resp"
    and body: "body = concat (fst (Body resp))"
    and op: "OpenFile (cache_ready (fst (http_Get E (proxy E w) uri)) target) targetName
               = (w4, None)"
    and rd: "snd (Body resp) = None" "length body \<le> space w"
    and side: "remote E (uri @ ''.sha256'') = Inr sresp" "StatusCode sresp \<le> 299"
      "ReadAll (Body sresp) = Inr (hex (sha256 E body))"
  shows "fetch E w target =
      (w4\<lparr>fs := (fs w4)(resolve w targetName \<mapsto> File body (now w)),
          space := space w - length body,
          log := log w @ [HttpGet uri, HttpGet (uri @ ''.sha256'')]\<rparr>,
       Inr (targetName, hex (sha256 E body)))"
proof -
  let ?w1 = "fst (http_Get E (proxy E w) uri)"
  let ?w5 = "w4\<lparr>fs := (fs w4)(resolve ?w1 targetName \<mapsto> File body (now ?w1)),
                 space := space ?w1 - length body\<rparr>"
  have w4: "w4 = fst (OpenFile (cache_ready ?w1 target) targetName)" using op by simp
  have lg: "log w4 = log w @ [HttpGet uri]" unfolding w4 by simp
  from op have op': "OpenFile (cache_ready ?w1 target) (Join [Join [''cache'', ''downloads''], target])
      = (w4, None)" by (simp add: tn)
  from rd have b: "snd (Body resp) = None" "length (concat (fst (Body resp))) \<le> space ?w1"
    by (simp_all add: body)
  have st: "store E ?w1 uri target (Body resp) = verify E ?w5 uri targetName body"
    using store_ok [OF op' b, of E uri] by (simp add: tn body)
  have ve: "verify E ?w5 uri targetName body
      = (?w5\<lparr>log := log ?w5 @ [HttpGet (uri @ ''.sha256'')]\<rparr>,
         Inr (targetName, hex (sha256 E body)))"
    using verify_sidecar [OF side, of ?w5 targetName body] by simp
  show ?thesis
    using ok resp fetch_store [of E target resp sz w] st ve by (simp add: uri lg)
qed

text \<open>
  Claim C9, amended. When the cache file decodes to an archive without entries, the
  replacement of the destination succeeds and the destination does not exist afterwards: it
  has been removed, with everything below it, and nothing creates it again. This is for a
  destination that the operating system can walk to (every element before the last names an
  existing directory), whose last element is a name (not \<open>.\<close> or \<open>..\<close>), and that does not
  hold the cache file; \<open>p\<close> is the node the destination names.
\<close>

theorem C9_empty_archive_removes_destination:
  assumes "fs w (resolve w targetName) = Some (File bytes t)" and "targetName \<noteq> []"
    and "if GOOS E = ''windows'' then unzip E bytes = Inr []
         else gunzip_tar E bytes = Inr ([], None)"
    and "dest \<noteq> []" and "\<not> endsWithDot dest" and "lookup w dest = Inr p"
    and "comps dest \<noteq> []" and "last (comps dest) \<noteq> ''.''" and "last (comps dest) \<noteq> ''..''"
    and "\<not> prefix p (resolve w targetName)"
  shows "\<exists>w'. install E w targetName dest = (w', None)
           \<and> fs w' p = None
           \<and> (fs w p \<noteq> None \<longrightarrow> (\<forall>k. prefix p k \<longrightarrow> fs w' k = None))
           \<and> log w' = log w @ [RemoveAllCall dest, UnpackCall targetName dest]"
proof -
  let ?wl = "w\<lparr>log := log w @ [RemoveAllCall dest]\<rparr>"
  have "install E w targetName dest =
     ((fst (RemoveAll ?wl dest))
        \<lparr>log := log w @ [RemoveAllCall dest, UnpackCall targetName dest]\<rparr>, None)"
    using assms(1-3) by (rule install_empty_archive) (use assms(6,10) in simp)
  moreover have "fs (fst (RemoveAll ?wl dest)) p = None"
    using assms(4,5) _ assms(7-9) by (rule RemoveAll_gone(1)) (use assms(6) in simp)
  moreover have "fs (fst (RemoveAll ?wl dest)) k = None" if "fs w p \<noteq> None" "prefix p k" for k
    using assms(4,5) _ assms(7-9) _ that(2) by (rule RemoveAll_gone(2)) (use assms(6) that(1) in simp_all)
  ultimately show ?thesis by simp
qed

text \<open>The world \<open>w0\<close> after a download of the archive \<open>abc\<close>.\<close>

definition w0_cached :: world where
  "w0_cached =
     w0\<lparr>fs := (fs w0)([''home'', ''cache''] \<mapsto> Dir 5,
                      [''home'', ''cache'', ''downloads''] \<mapsto> Dir 5,
                      [''home'', ''cache'', ''downloads'', ''go.tgz''] \<mapsto> File ''abc'' 5)\<rparr>"

lemma dest0:
  "\<not> endsWithDot ''/dest''" "comps ''/dest'' = [''dest'']"
  by code_simp+

lemma lookup_dest0: "lookup w ''/dest'' = Inr [''dest'']"
  by (simp add: lookup_def dest0 paths1 dir_at_def)

theorem C9_empty_archive_removes_destination_witness:
  "fs w0_cached [''dest''] = Some (Dir 0)
   \<and> fs w0_cached [''dest'', ''old''] = Some (File ''x'' 0)
   \<and> snd (install (E0 ''636261'') w0_cached ''cache/downloads/go.tgz'' ''/dest'') = None
   \<and> fs (fst (install (E0 ''636261'') w0_cached ''cache/downloads/go.tgz'' ''/dest'')) [''dest'']
       = None
   \<and> fs (fst (install (E0 ''636261'') w0_cached ''cache/downloads/go.tgz'' ''/dest''))
        [''dest'', ''old''] = None"
proof -
  have c: "cwd w0_cached = [''home'']" by (simp add: w0_cached_def w0_def)
  have rt: "resolve w0_cached ''cache/downloads/go.tgz''
      = [''home'', ''cache'', ''downloads'', ''go.tgz'']"
    using c by (rule resolve0)
  have rd: "resolve w0_cached ''/dest'' = [''dest'']" by (simp add: resolve_def paths1)
  have h1: "fs w0_cached (resolve w0_cached ''cache/downloads/go.tgz'') = Some (File ''abc'' 5)"
    by (simp add: rt) (simp add: w0_cached_def)
  have h3: "if GOOS (E0 ''636261'') = ''windows'' then unzip (E0 ''636261'') ''abc'' = Inr []
         else gunzip_tar (E0 ''636261'') ''abc'' = Inr ([], None)"
    by (simp add: E0_def)
  have h7: "\<not> prefix [''dest''] (resolve w0_cached ''cache/downloads/go.tgz'')"
    by (simp add: rt)
  have before: "fs w0_cached [''dest''] = Some (Dir 0)"
    "fs w0_cached [''dest'', ''old''] = Some (File ''x'' 0)"
    by (simp_all add: w0_cached_def w0_def)
  have p: "prefix [''dest''] [''dest'']" "prefix [''dest''] [''dest'', ''old'']" by simp_all
  from C9_empty_archive_removes_destination [OF h1 _ h3 _ dest0(1) lookup_dest0 _ _ _ h7]
    before p
  show ?thesis by (auto simp: dest0)
qed

text \<open>
  A destination with a missing element on the way is left as it is: \<open>/nodir\<close> does not
  exist, so the walk along \<open>/nodir/../dest\<close> fails, and \<open>os.RemoveAll\<close> takes that for a
  path that does not exist.
\<close>

lemma RemoveAll_unwalkable:
  "RemoveAll w0 ''/nodir/../dest'' = (w0, None)"
proof -
  have "\<not> endsWithDot ''/nodir/../dest''" "rooted ''/nodir/../dest''"
    "comps ''/nodir/../dest'' = [''nodir'', ''..'', ''dest'']"
    by code_simp+
  then show ?thesis
    by (simp add: RemoveAll_def lookup_def dir_at_def w0_def)
qed


lemma fetch0_match:
  "fetch (E0 ''636261'') w0 ''go.tgz'' =
     ((fst (OpenFile (cache_ready (fst (http_Get (E0 ''636261'') (proxy (E0 ''636261'') w0) archive_url)) ''go.tgz'')
              ''cache/downloads/go.tgz''))
        \<lparr>fs := (fs (fst (OpenFile (cache_ready (fst (http_Get (E0 ''636261'') (proxy (E0 ''636261'') w0) archive_url)) ''go.tgz'')
              ''cache/downloads/go.tgz'')))
                 (resolve w0 ''cache/downloads/go.tgz'' \<mapsto> File ''abc'' (now w0)),
          space := space w0 - length ''abc'',
          log := log w0 @ [HttpGet archive_url, HttpGet (archive_url @ ''.sha256'')]\<rparr>,
      Inr (''cache/downloads/go.tgz'', hex (toy_digest ''abc'')))"
proof -
  let ?E = "E0 ''636261''"
  let ?resp = "\<lparr>StatusCode = 200, ContentLength = ''3'', Body = ([''ab'', ''c''], None)\<rparr>"
  let ?sresp = "\<lparr>StatusCode = 200, ContentLength = [], Body = ([''636261''], None)\<rparr>"
  have u: "archive_url = DefaultDownloadURLPrefix ?E @ ''/'' @ ''go.tgz''"
    by (simp add: E0_def archive_url_def)
  have t: "''cache/downloads/go.tgz'' = Join [Join [''cache'', ''downloads''], ''go.tgz'']"
    by (simp add: paths0)
  have r: "remote ?E archive_url = Inr ?resp" by (rule remote0_archive)
  have b: "''abc'' = concat (fst (Body ?resp))" by simp
  have op: "OpenFile (cache_ready (fst (http_Get ?E (proxy ?E w0) archive_url)) ''go.tgz'')
      ''cache/downloads/go.tgz''
      = (fst (OpenFile (cache_ready (fst (http_Get ?E (proxy ?E w0) archive_url)) ''go.tgz'')
      ''cache/downloads/go.tgz''), None)"
    using open0 [of "''636261''"] by (simp add: prod_eq_iff)
  show ?thesis
    using fetch_match [of ?E archive_url ?resp 3 "''go.tgz''" "''cache/downloads/go.tgz''"
        "''abc''" w0 _ ?sresp, OF _ _ _ u t r b op]
    by (simp add: E0_fields Atoi3 remote0_archive ReadAll_def hex0 w0_def)
qed

text \<open>
  Claim C9 as stated fails: after a verified download of an archive without entries into the
  existing destination \<open>/dest\<close>, \<open>downloadGoVersion\<close> returns no error and the destination
  does not exist; no statement of the program creates the destination itself.
\<close>

theorem C9_counterexample:
  "gunzip_tar (E0 ''636261'') ''abc'' = Inr ([], None)
   \<and> fs w0 [''dest''] = Some (Dir 0)
   \<and> snd (downloadGoVersion (E0 ''636261'') w0 ''go.tgz'' ''/dest'') = None
   \<and> fs (fst (downloadGoVersion (E0 ''636261'') w0 ''go.tgz'' ''/dest'')) [''dest''] = None"
proof -
  let ?E = "E0 ''636261''"
  let ?tn = "''cache/downloads/go.tgz''"
  obtain w6 where f: "fetch ?E w0 ''go.tgz'' = (w6, Inr (?tn, hex (toy_digest ''abc'')))"
    and w6: "w6 = (fst (OpenFile (cache_ready (fst (http_Get ?E (proxy ?E w0) archive_url)) ''go.tgz'') ?tn))
        \<lparr>fs := (fs (fst (OpenFile (cache_ready (fst (http_Get ?E (proxy ?E w0) archive_url)) ''go.tgz'') ?tn)))
                 (resolve w0 ?tn \<mapsto> File ''abc'' (now w0)),
          space := space w0 - length ''abc'',
          log := log w0 @ [HttpGet archive_url, HttpGet (archive_url @ ''.sha256'')]\<rparr>"
    using fetch0_match by blast
  have c: "cwd w6 = [''home'']" unfolding w6 by (simp add: w0_def)
  have rs: "resolve w6 ?tn = resolve w0 ?tn" unfolding w6 by (simp add: resolve_def)
  have rd: "resolve w6 ''/dest'' = [''dest'']" by (simp add: resolve_def paths1)
  have rt: "resolve w6 ?tn = [''home'', ''cache'', ''downloads'', ''go.tgz'']"
    using c by (rule resolve0)
  have h1: "fs w6 (resolve w6 ?tn) = Some (File ''abc'' (now w0))"
    unfolding rs unfolding w6 by simp
  have h3: "if GOOS ?E = ''windows'' then unzip ?E ''abc'' = Inr []
         else gunzip_tar ?E ''abc'' = Inr ([], None)"
    by (simp add: E0_def)
  have h7: "\<not> prefix p (resolve w6 ?tn)" if "lookup w6 ''/dest'' = Inr p" for p
    using that by (auto simp: rt lookup_dest0)
  have ins: "install ?E w6 ?tn ''/dest'' =
     ((fst (RemoveAll (w6\<lparr>log := log w6 @ [RemoveAllCall ''/dest'']\<rparr>) ''/dest''))
        \<lparr>log := log w6 @ [RemoveAllCall ''/dest'', UnpackCall ?tn ''/dest'']\<rparr>, None)"
    using h1 _ h3 h7 by (rule install_empty_archive) simp
  have gone: "fs (fst (RemoveAll (w6\<lparr>log := log w6 @ [RemoveAllCall ''/dest'']\<rparr>) ''/dest''))
      [''dest''] = None"
    by (rule RemoveAll_gone(1) [where p = "[''dest'']"]) (simp_all add: dest0 lookup_dest0)
  have d: "downloadGoVersion ?E w0 ''go.tgz'' ''/dest'' = install ?E w6 ?tn ''/dest''"
    by (simp add: downloadGoVersion_def f)
  have "snd (install ?E w6 ?tn ''/dest'') = None" using ins by simp
  moreover have "fs (fst (install ?E w6 ?tn ''/dest'')) [''dest''] = None"
    using gone by (simp add: ins)
  moreover have "gunzip_tar ?E ''abc'' = Inr ([], None)" by (simp add: E0_def)
  moreover have "fs w0 [''dest''] = Some (Dir 0)" by (simp add: w0_def)
  ultimately show ?thesis unfolding d by simp
qed

section \<open>Properties of the cached listing\<close>

lemma Sub_less_72: "Sub a b < Hour * 72 \<longleftrightarrow> a - b < 72 * Hour"
  by (simp add: Sub_def maxDuration_def minDuration_def Hour_def)

lemma versionName0:
  "Join [''cache'', ''VERSION''] = ''cache/VERSION''"
  by code_simp

lemma Stat_file:
  "fs w (resolve w name) = Some (File c t) \<Longrightarrow> name \<noteq> [] \<Longrightarrow> Stat w name = Inr (FileInfo False t)"
  by (simp add: Stat_def)

lemma ReadFile_file:
  "fs w (resolve w name) = Some (File c t) \<Longrightarrow> name \<noteq> [] \<Longrightarrow> ReadFile w name = Inr c"
  by (simp add: ReadFile_def)

lemma load_fresh:
  assumes "fs w (resolve w ''cache/VERSION'') = Some (File c t)" and "now w - t < 72 * Hour"
  shows "load_listing E w = (w, Inr c)"
  using assms Stat_file [OF assms(1)] ReadFile_file [OF assms(1)]
  by (simp add: load_listing_def versionName0 Sub_less_72)

lemma load_stale:
  assumes "Stat w ''cache/VERSION'' = Inl ErrNotExist
     \<or> (fs w (resolve w ''cache/VERSION'') = Some (File c t) \<and> 72 * Hour \<le> now w - t)"
  shows "load_listing E w = getRemoteVersion E w ''cache/VERSION''"
  using assms
proof
  assume "Stat w ''cache/VERSION'' = Inl ErrNotExist"
  then show ?thesis by (simp add: load_listing_def versionName0 IsNotExist_def)
next
  assume a: "fs w (resolve w ''cache/VERSION'') = Some (File c t) \<and> 72 * Hour \<le> now w - t"
  then have "Stat w ''cache/VERSION'' = Inr (FileInfo False t)" by (simp add: Stat_file)
  with a show ?thesis by (simp add: load_listing_def versionName0 Sub_less_72)
qed

lemma WriteFile_log: "log (fst (WriteFile w1 name b)) = log w1"
proof -
  have fw: "log (fst (file_Write w2 p b)) = log w2" for w2 p
    by (simp add: file_Write_def split: option.splits node.splits)
  obtain w2 oe where op: "OpenFile w1 name = (w2, oe)" by (cases "OpenFile w1 name")
  then have l2: "log w2 = log w1" using OpenFile_fields(4) [of w1 name] by simp
  show ?thesis
  proof (cases oe)
    case None
    obtain w3 n e where fwr: "file_Write w2 (resolve w1 name) b = (w3, n, e)"
      by (cases "file_Write w2 (resolve w1 name) b") auto
    with fw [of w2 "resolve w1 name"] have "log w3 = log w2" by simp
    with op None fwr l2 show ?thesis by (simp add: WriteFile_def)
  next
    case (Some err)
    with op l2 show ?thesis by (simp add: WriteFile_def)
  qed
qed

lemma getRemoteVersion_cases:
  obtains (c_connect) err where "remote E (DefaultSourceURL E) = Inl err"
      "getRemoteVersion E w name
         = (fst (http_Get E (proxy E w) (DefaultSourceURL E)), Inl (VersionConnect err))"
  | (c_status) resp where "remote E (DefaultSourceURL E) = Inr resp" "StatusCode resp > 299"
      "getRemoteVersion E w name
         = (fst (http_Get E (proxy E w) (DefaultSourceURL E)), Inl (VersionStatus (StatusCode resp)))"
  | (c_read) resp err where "remote E (DefaultSourceURL E) = Inr resp" "StatusCode resp \<le> 299"
      "ReadAll (Body resp) = Inl err"
      "getRemoteVersion E w name = (fst (http_Get E (proxy E w) (DefaultSourceURL E)), Inl err)"
  | (c_write) resp b err where "remote E (DefaultSourceURL E) = Inr resp" "StatusCode resp \<le> 299"
      "ReadAll (Body resp) = Inr b"
      "snd (WriteFile (fst (http_Get E (proxy E w) (DefaultSourceURL E))) name b) = Some err"
      "getRemoteVersion E w name
         = (fst (WriteFile (fst (http_Get E (proxy E w) (DefaultSourceURL E))) name b),
            Inl (CacheWriteError err))"
  | (c_ok) resp b where "remote E (DefaultSourceURL E) = Inr resp" "StatusCode resp \<le> 299"
      "ReadAll (Body resp) = Inr b"
      "snd (WriteFile (fst (http_Get E (proxy E w) (DefaultSourceURL E))) name b) = None"
      "getRemoteVersion E w name
         = (fst (WriteFile (fst (http_Get E (proxy E w) (DefaultSourceURL E))) name b), Inr b)"
proof -
  define w1 where "w1 = fst (http_Get E (proxy E w) (DefaultSourceURL E))"
  have g: "http_Get E (proxy E w) (DefaultSourceURL E) = (w1, remote E (DefaultSourceURL E))"
    by (simp add: w1_def prod_eq_iff)
  show ?thesis
  proof (cases "remote E (DefaultSourceURL E)")
    case (Inl err)
    then show ?thesis
      using c_connect [of err, folded w1_def] by (simp add: getRemoteVersion_def g)
  next
    case (Inr resp)
    show ?thesis
    proof (cases "StatusCode resp > 299")
      case True
      with Inr show ?thesis
        using c_status [of resp, folded w1_def] by (simp add: getRemoteVersion_def g)
    next
      case False
      then have le: "StatusCode resp \<le> 299" by simp
      show ?thesis
      proof (cases "ReadAll (Body resp)")
        case (Inl err)
        with Inr False le show ?thesis
          using c_read [of resp err, folded w1_def] by (simp add: getRemoteVersion_def g)
      next
        case b: (Inr b)
        define w2 where "w2 = fst (WriteFile w1 name b)"
        show ?thesis
        proof (cases "snd (WriteFile w1 name b)")
          case None
          then have "WriteFile w1 name b = (w2, None)" by (simp add: w2_def prod_eq_iff)
          with Inr False le b None show ?thesis
            using c_ok [of resp b, folded w1_def, folded w2_def]
            by (simp add: getRemoteVersion_def g)
        next
          case (Some err)
          then have "WriteFile w1 name b = (w2, Some err)" by (simp add: w2_def prod_eq_iff)
          with Inr False le b Some show ?thesis
            using c_write [of resp b err, folded w1_def, folded w2_def]
            by (simp add: getRemoteVersion_def g)
        qed
      qed
    qed
  qed
qed

lemma getRemoteVersion_log:
  "log (fst (getRemoteVersion E w name)) = log w @ [HttpGet (DefaultSourceURL E)]"
  by (cases rule: getRemoteVersion_cases [of E w name]) (simp_all add: WriteFile_log)

lemma WriteFile_ok:
  assumes "WriteFile w name b = (w', None)"
  shows "fs w' (resolve w name) = Some (File b (now w))"
proof -
  obtain w1 oe where op: "OpenFile w name = (w1, oe)" by (cases "OpenFile w name")
  with assms have oe: "oe = None" by (cases oe) (simp_all add: WriteFile_def)
  have f: "fs w1 (resolve w name) = Some (File [] (now w))"
    using OpenFile_ok [OF op [unfolded oe]] .
  have n: "now w1 = now w" using op OpenFile_fields(2) [of w name] by simp
  from assms op oe f n show ?thesis
    by (auto simp: WriteFile_def file_Write_def split: if_splits)
qed

lemma getRemoteVersion_Inr:
  assumes "getRemoteVersion E w name = (w', Inr b)"
  shows "(\<exists>resp. remote E (DefaultSourceURL E) = Inr resp \<and> StatusCode resp \<le> 299
            \<and> ReadAll (Body resp) = Inr b)
         \<and> fs w' (resolve w name) = Some (File b (now w))"
proof (cases rule: getRemoteVersion_cases [of E w name])
  case (c_ok resp b')
  let ?w1 = "fst (http_Get E (proxy E w) (DefaultSourceURL E))"
  from c_ok(5) assms have e: "b' = b" "w' = fst (WriteFile ?w1 name b)" by simp_all
  with c_ok(4) have "WriteFile ?w1 name b = (w', None)" by (simp add: prod_eq_iff)
  from WriteFile_ok [OF this] have "fs w' (resolve w name) = Some (File b (now w))" by simp
  with c_ok e show ?thesis by blast
qed (use assms in simp_all)


lemma fst_getAllGoVersion: "fst (getAllGoVersion E w) = fst (load_listing E w)"
  by (cases "load_listing E w") (auto simp: getAllGoVersion_def split: sum.splits)

text \<open>
  The two branches that the code handles. A cache file whose age (the clock minus its
  modification time) is less than 72 hours is read, and nothing else happens: the world is
  unchanged, so no request is sent. When \<open>os.Stat\<close> answers "not exist", or the file's age is 72
  hours or more, the listing is what \<open>getRemoteVersion\<close> returns: a request for the listing is
  sent, and when that ends without an error the cache file holds the bytes received, which are
  the listing used.
\<close>

lemma cache_freshness:
  assumes vn: "versionName = Join [''cache'', ''VERSION'']"
  shows
    "(fs w (resolve w versionName) = Some (File c t) \<and> now w - t < 72 * Hour
        \<longrightarrow> getAllGoVersion E w = (w, Inr (versions_of c)))
     \<and> (Stat w versionName = Inl ErrNotExist
          \<or> (fs w (resolve w versionName) = Some (File c t) \<and> 72 * Hour \<le> now w - t)
        \<longrightarrow> load_listing E w = getRemoteVersion E w versionName
            \<and> log (fst (getAllGoVersion E w)) = log w @ [HttpGet (DefaultSourceURL E)]
            \<and> (\<forall>w' b. load_listing E w = (w', Inr b)
                  \<longrightarrow> (\<exists>resp. remote E (DefaultSourceURL E) = Inr resp
                              \<and> StatusCode resp \<le> 299 \<and> ReadAll (Body resp) = Inr b)
                      \<and> fs w' (resolve w versionName) = Some (File b (now w))
                      \<and> getAllGoVersion E w = (w', Inr (versions_of b))))"
proof (intro conjI impI)
  assume "fs w (resolve w versionName) = Some (File c t) \<and> now w - t < 72 * Hour"
  then have "load_listing E w = (w, Inr c)"
    using load_fresh [of w c t E] by (simp add: vn versionName0)
  then show "getAllGoVersion E w = (w, Inr (versions_of c))"
    by (simp add: getAllGoVersion_def)
next
  assume a: "Stat w versionName = Inl ErrNotExist
          \<or> (fs w (resolve w versionName) = Some (File c t) \<and> 72 * Hour \<le> now w - t)"
  then show l: "load_listing E w = getRemoteVersion E w versionName"
    using load_stale [of w c t E] by (simp add: vn versionName0)
  show "log (fst (getAllGoVersion E w)) = log w @ [HttpGet (DefaultSourceURL E)]"
    by (simp add: fst_getAllGoVersion l getRemoteVersion_log)
  show "\<forall>w' b. load_listing E w = (w', Inr b)
          \<longrightarrow> (\<exists>resp. remote E (DefaultSourceURL E) = Inr resp
                      \<and> StatusCode resp \<le> 299 \<and> ReadAll (Body resp) = Inr b)
              \<and> fs w' (resolve w versionName) = Some (File b (now w))
              \<and> getAllGoVersion E w = (w', Inr (versions_of b))"
  proof (intro allI impI)
    fix w' b
    assume r: "load_listing E w = (w', Inr b)"
    then have "getRemoteVersion E w versionName = (w', Inr b)" by (simp add: l)
    from getRemoteVersion_Inr [OF this] r
    show "(\<exists>resp. remote E (DefaultSourceURL E) = Inr resp
                      \<and> StatusCode resp \<le> 299 \<and> ReadAll (Body resp) = Inr b)
              \<and> fs w' (resolve w versionName) = Some (File b (now w))
              \<and> getAllGoVersion E w = (w', Inr (versions_of b))"
      by (simp add: getAllGoVersion_def)
  qed
qed

definition source_url :: string where
  "source_url = ''https://go.googlesource.com/go/+refs?format=TEXT''"

definition EV :: environment where
  "EV = (E0 [])\<lparr>remote :=
          (\<lambda>url. if url = source_url
                  then Inr \<lparr>StatusCode = 200, ContentLength = [], Body = ([listing_three], None)\<rparr>
                  else Inl (ErrNetwork ''no such host''))\<rparr>"

text \<open>
  Two worlds at the clock 73 hours: one whose cache file was written at 2 hours (71 hours
  ago), one whose cache file was written at 0 hours (73 hours ago).
\<close>

definition w_cache :: "int \<Rightarrow> world" where
  "w_cache t =
     \<lparr>fs = [[] \<mapsto> Dir 0, [''home''] \<mapsto> Dir 0, [''home'', ''cache''] \<mapsto> Dir 0,
            [''home'', ''cache'', ''VERSION''] \<mapsto> File listing_tie t],
      cwd = [''home''], now = 73 * Hour, space = 1000, environ = Map.empty, log = []\<rparr>"

lemma versionName_path:
  "rooted ''cache/VERSION'' = False" "elems ''cache/VERSION'' = [''cache'', ''VERSION'']"
  by code_simp+

lemma resolve_version: "resolve (w_cache t) ''cache/VERSION'' = [''home'', ''cache'', ''VERSION'']"
  by (simp add: resolve_def versionName_path w_cache_def)

lemma remote_stale:
  "snd (getRemoteVersion EV (w_cache 0) ''cache/VERSION'') = Inr listing_three"
proof -
  have "length listing_three \<le> 1000" by (simp add: listing_three_def)
  then show ?thesis
    by (simp add: getRemoteVersion_def http_Get_def proxy_def EV_def E0_def source_url_def
        ReadAll_def WriteFile_def OpenFile_def file_Write_def resolve_def versionName_path
        Let_def w_cache_def)
qed

text \<open>The cache file of 71 hours is read; the one of 73 hours is fetched again and replaced.\<close>

lemma cache_freshness_example:
  "now (w_cache (2 * Hour)) - 2 * Hour = 71 * Hour
   \<and> getAllGoVersion EV (w_cache (2 * Hour)) = (w_cache (2 * Hour), Inr [''1.2.3+b'', ''1.2.3+a''])
   \<and> log (w_cache (2 * Hour)) = []
   \<and> now (w_cache 0) - 0 = 73 * Hour
   \<and> log (fst (getAllGoVersion EV (w_cache 0))) = [HttpGet source_url]
   \<and> fs (fst (getAllGoVersion EV (w_cache 0))) [''home'', ''cache'', ''VERSION'']
       = Some (File listing_three (73 * Hour))
   \<and> snd (getAllGoVersion EV (w_cache 0)) = Inr [''1.10.0'', ''1.2.10'', ''1.2.3'']"
proof -
  have vn: "''cache/VERSION'' = Join [''cache'', ''VERSION'']" by (simp add: versionName0)
  note c7 = cache_freshness [OF vn]
  have fresh: "fs (w_cache (2 * Hour)) (resolve (w_cache (2 * Hour)) ''cache/VERSION'')
        = Some (File listing_tie (2 * Hour))
      \<and> now (w_cache (2 * Hour)) - 2 * Hour < 72 * Hour"
    unfolding resolve_version by (simp add: w_cache_def Hour_def)
  have stale: "Stat (w_cache 0) ''cache/VERSION'' = Inl ErrNotExist
      \<or> (fs (w_cache 0) (resolve (w_cache 0) ''cache/VERSION'') = Some (File listing_tie 0)
          \<and> 72 * Hour \<le> now (w_cache 0) - 0)"
    unfolding resolve_version by (simp add: w_cache_def Hour_def)
  note f = c7 [THEN conjunct1, THEN mp, OF fresh, of EV]
  note s = c7 [THEN conjunct2, THEN mp, OF stale, of EV]
  have src: "DefaultSourceURL EV = source_url" by (simp add: EV_def E0_def source_url_def)
  have "load_listing EV (w_cache 0) = (fst (load_listing EV (w_cache 0)), Inr listing_three)"
    using s [THEN conjunct1] remote_stale by (simp add: prod_eq_iff)
  from s [THEN conjunct2, THEN conjunct2, rule_format, OF this]
  have after: "fs (fst (load_listing EV (w_cache 0))) [''home'', ''cache'', ''VERSION'']
        = Some (File listing_three (73 * Hour))"
    "getAllGoVersion EV (w_cache 0)
        = (fst (load_listing EV (w_cache 0)), Inr (versions_of listing_three))"
    by (simp_all add: resolve_version) (simp add: w_cache_def)
  have t: "now (w_cache (2 * Hour)) - 2 * Hour = 71 * Hour" "now (w_cache 0) - 0 = 73 * Hour"
    "log (w_cache (2 * Hour)) = []" "log (w_cache 0) = []"
    by (simp_all add: w_cache_def)
  show ?thesis
    using f s [THEN conjunct2, THEN conjunct1] after t
    by (simp add: versions_of_tie versions_of_three src fst_getAllGoVersion)
qed

subsection \<open>A cache file that is missing behind a file\<close>

text \<open>
  The working directory holds a regular file named \<open>cache\<close>, so there is no cache file
  \<open>cache/VERSION\<close>. The clock and the server are those of the worlds above.
\<close>

definition w_nodir :: world where
  "w_nodir =
     \<lparr>fs = [[] \<mapsto> Dir 0, [''home''] \<mapsto> Dir 0, [''home'', ''cache''] \<mapsto> File ''x'' 0],
      cwd = [''home''], now = 73 * Hour, space = 1000, environ = Map.empty, log = []\<rparr>"

lemma Stat_nodir: "Stat w_nodir ''cache/VERSION'' = Inl ErrNotDir"
proof -
  have "[0..<3] = [0, 1, 2]" by (simp add: upt_rec)
  then show ?thesis
    by (simp add: Stat_def resolve_def versionName_path w_nodir_def)
qed

text \<open>
  Claim C7 (a missing cache file is fetched again) fails on the code when the cache file is
  missing because a file stands where the directory \<open>cache\<close> should be. \<open>os.Stat\<close> then
  fails with \<open>ENOTDIR\<close>, which \<open>os.IsNotExist\<close> does not accept; the code takes the branch
  for an existing cache file and calls \<open>fi.ModTime()\<close> on the nil \<open>FileInfo\<close>. The call
  panics: no request is sent, although the server would answer with the listing.
\<close>

theorem C7_missing_cache_file_panics:
  "fs w_nodir [''home'', ''cache''] = Some (File ''x'' 0)
   \<and> fs w_nodir [''home'', ''cache'', ''VERSION''] = None
   \<and> remote EV (DefaultSourceURL EV)
       = Inr \<lparr>StatusCode = 200, ContentLength = [], Body = ([listing_three], None)\<rparr>
   \<and> getAllGoVersion EV w_nodir = (w_nodir, Inl Panic)
   \<and> log w_nodir = []"
proof -
  have "load_listing EV w_nodir = (w_nodir, Inl Panic)"
    by (simp add: load_listing_def versionName0 Stat_nodir IsNotExist_def)
  then have "getAllGoVersion EV w_nodir = (w_nodir, Inl Panic)"
    by (simp add: getAllGoVersion_def)
  moreover have "remote EV (DefaultSourceURL EV)
       = Inr \<lparr>StatusCode = 200, ContentLength = [], Body = ([listing_three], None)\<rparr>"
    by (simp add: EV_def E0_def source_url_def)
  ultimately show ?thesis by (simp add: w_nodir_def)
qed

end
